theory Spec2Isabelle
  imports Main "HOL-Library.Multiset" "HOL-Library.Sublist"
begin

section \<open>Exceptions, resources and the state threaded through a rule\<close>

text \<open>
  The exceptions that matter to the engine. Every value stands for an instance of a
  subclass of Python's \<open>Exception\<close>; \<open>StopIteration\<close> is the stop signal of the
  action pipeline, \<open>KeyError\<close> is what a dictionary lookup raises on a missing key
  (its \<open>str\<close> is the key between single quotes),
  \<open>ValueError\<close> is what \<open>group_filter_pipeline\<close> raises on a cyclic graph,
  \<open>TypeError\<close> is what a membership test in \<open>None\<close> raises, and \<open>OtherError\<close> is any other exception a filter or an action raises.
\<close>

datatype exn = StopIteration | KeyError string | ValueError string | TypeError string | OtherError string

fun str :: "exn \<Rightarrow> string" where
  "str StopIteration = []"
| "str (KeyError k) = CHR 0x27 # k @ [CHR 0x27]"
| "str (ValueError m) = m"
| "str (TypeError m) = m"
| "str (OtherError m) = m"

text \<open>
  Modelled from the spec: the class \<open>Resource\<close> of \<open>organize.resource\<close> is not among
  the sources. Section 3 of the specification gives its fields: an optional path, the
  base directory, the number of the rule, the variables the filters write, and the
  set of paths an action asks the walker to skip.
\<close>

record 'v resource =
  path :: "string option"
  basedir :: "string option"
  rule_nr :: int
  vars :: "string \<rightharpoonup> 'v"
  walker_skip_pathes :: "string set"

text \<open>
  Modelled from the spec: the class \<open>Output\<close> of \<open>organize.output\<close> is not among the
  sources. Section 6 describes it as a sink accepting a message with its level and
  its sender; \<open>output.msg\<close> appends one report.
\<close>

datatype report = Report (level: string) (msg: string) (sender: string)

text \<open>
  The calls of \<open>pipeline\<close> methods the engine makes, in order. The field \<open>trace\<close>
  below is a log kept by the model at each call site; no filter and no action can
  read or write it.
\<close>

datatype call = FilterCall string | GroupFilterCall string | ActionCall string | GroupActionCall string

text \<open>
  What outlives a resource: \<open>world\<close> is everything outside the engine that a filter
  or an action may read or change (the file system), \<open>sink\<close> holds the reports the
  engine itself sends to the sink.
\<close>

record 'w state =
  world :: 'w
  sink :: "report list"
  trace :: "call list"

type_synonym ('v, 'w) ctx = "'v resource \<times> 'w state"

definition output_msg :: "string \<Rightarrow> string \<Rightarrow> string \<Rightarrow> 'w state \<Rightarrow> 'w state" where
  "output_msg lv m snd_name s = s\<lparr>sink := sink s @ [Report lv m snd_name]\<rparr>"

definition log_call :: "call \<Rightarrow> 'w state \<Rightarrow> 'w state" where
  "log_call c s = s\<lparr>trace := trace s @ [c]\<rparr>"

section \<open>Filters and the boolean combinators (filter.py)\<close>

datatype filter_config = FilterConfig (fc_name: string) (fc_files: bool) (fc_dirs: bool)

text \<open>
  A filter is its capability descriptor and its \<open>pipeline\<close> method, which returns a
  boolean or raises, and may change the resource and the world.
\<close>

record ('v, 'w) filter =
  filter_config :: filter_config
  Filter_pipeline :: "'v resource \<Rightarrow> 'w \<Rightarrow> (exn + bool) \<times> 'v resource \<times> 'w"

text \<open>\<open>filter.pipeline(res, output)\<close> at a call site of the engine.\<close>

definition call_filter :: "('v, 'w) filter \<Rightarrow> ('v, 'w) ctx \<Rightarrow> (exn + bool) \<times> ('v, 'w) ctx" where
  "call_filter f c =
     (case c of (r, s) \<Rightarrow>
        (case Filter_pipeline f r (world s) of (out, r', w') \<Rightarrow>
           (out, (r', log_call (FilterCall (fc_name (filter_config f))) (s\<lparr>world := w'\<rparr>)))))"

text \<open>Class \<open>Not\<close>: the same descriptor, the negated result; an exception passes through.\<close>

definition Not_filter :: "('v, 'w) filter \<Rightarrow> ('v, 'w) filter" where
  "Not_filter f = f\<lparr>Filter_pipeline := (\<lambda>r w.
     (case Filter_pipeline f r w of
        (Inr b, r', w') \<Rightarrow> (Inr (\<not> b), r', w')
      | (Inl e, r', w') \<Rightarrow> (Inl e, r', w')))\<rparr>"

definition report_filter_error :: "exn \<Rightarrow> ('v, 'w) filter \<Rightarrow> ('v, 'w) ctx \<Rightarrow> ('v, 'w) ctx" where
  "report_filter_error e f c =
     (case c of (r, s) \<Rightarrow> (r, output_msg ''error'' (str e) (fc_name (filter_config f)) s))"

text \<open>\<open>All.pipeline\<close>: the loop over the filters, with its two early returns.\<close>

fun All_pipeline :: "('v, 'w) filter list \<Rightarrow> ('v, 'w) ctx \<Rightarrow> bool \<times> ('v, 'w) ctx" where
  "All_pipeline [] c = (True, c)"
| "All_pipeline (f # fs) c =
     (case call_filter f c of
        (Inr match, c') \<Rightarrow> (if \<not> match then (False, c') else All_pipeline fs c')
      | (Inl e, c') \<Rightarrow> (False, report_filter_error e f c'))"

text \<open>\<open>Any.pipeline\<close>: every filter is called; \<open>result\<close> is the loop's accumulator.\<close>

fun Any_loop :: "bool \<Rightarrow> ('v, 'w) filter list \<Rightarrow> ('v, 'w) ctx \<Rightarrow> bool \<times> ('v, 'w) ctx" where
  "Any_loop result [] c = (result, c)"
| "Any_loop result (f # fs) c =
     (case call_filter f c of
        (Inr match, c') \<Rightarrow> Any_loop (if match then True else result) fs c'
      | (Inl e, c') \<Rightarrow> Any_loop result fs (report_filter_error e f c'))"

definition Any_pipeline :: "('v, 'w) filter list \<Rightarrow> ('v, 'w) ctx \<Rightarrow> bool \<times> ('v, 'w) ctx" where
  "Any_pipeline fs c = Any_loop False fs c"

text \<open>
  \<open>FilterMode\<close> is the literal type of the three modes, so the source's last branch
  (\<open>ValueError\<close> on an unknown mode) has no input.
\<close>

datatype filter_mode = Mode_all | Mode_any | Mode_none

fun filter_pipeline :: "('v, 'w) filter list \<Rightarrow> filter_mode \<Rightarrow> ('v, 'w) ctx \<Rightarrow> bool \<times> ('v, 'w) ctx" where
  "filter_pipeline fs Mode_all c = All_pipeline fs c"
| "filter_pipeline fs Mode_any c = Any_pipeline fs c"
| "filter_pipeline fs Mode_none c = All_pipeline (map Not_filter fs) c"

section \<open>Group filters and their dependency graph (filter.py)\<close>

datatype depend_on_mode = Mode_and | Mode_or

text \<open>
  \<open>depend_on\<close> is a Python set: the list gives the order in which the set is iterated,
  and the model iterates \<open>remdups\<close> of it, each element once.
\<close>

record ('v, 'w) group_filter =
  name :: string
  filters :: "('v, 'w) filter list"
  filter_mode :: filter_mode
  depend_on :: "string list"
  depend_on_mode :: depend_on_mode
  depend_on_inverted :: "string set"

definition GroupFilter_pipeline :: "('v, 'w) group_filter \<Rightarrow> ('v, 'w) ctx \<Rightarrow> bool \<times> ('v, 'w) ctx" where
  "GroupFilter_pipeline g c = filter_pipeline (filters g) (filter_mode g) c"

text \<open>
  A Python dictionary is an association list in insertion order with distinct keys:
  storing under a key that is present replaces the value in place, storing under a new
  key appends. A lookup of a missing key raises \<open>KeyError\<close>.
\<close>

type_synonym ('k, 'a) dict = "('k \<times> 'a) list"

fun dict_set :: "('k, 'a) dict \<Rightarrow> 'k \<Rightarrow> 'a \<Rightarrow> ('k, 'a) dict" where
  "dict_set [] k v = [(k, v)]"
| "dict_set ((k', v') # d) k v = (if k' = k then (k, v) # d else (k', v') # dict_set d k v)"

definition dict_get :: "(string, 'a) dict \<Rightarrow> string \<Rightarrow> exn + 'a" where
  "dict_get d k = (case map_of d k of None \<Rightarrow> Inl (KeyError k) | Some v \<Rightarrow> Inr v)"

text \<open>\<open>{node.name: node for node in node_map}\<close>\<close>

definition nodes_of :: "('v, 'w) group_filter list \<Rightarrow> (string, ('v, 'w) group_filter) dict" where
  "nodes_of node_map = foldl (\<lambda>d node. dict_set d (name node) node) [] node_map"

text \<open>
  The body of the two nested \<open>for\<close> loops that fill \<open>in_degree\<close> and \<open>children\<close>:
  one dependency \<open>dep\<close> of the node called \<open>n\<close>.
\<close>

type_synonym graph = "(string, int) dict \<times> (string, string list) dict"

fun add_deps :: "string list \<Rightarrow> string \<Rightarrow> string list \<Rightarrow> graph \<Rightarrow> exn + graph" where
  "add_deps ks n [] g = Inr g"
| "add_deps ks n (dep # deps) g =
     (if dep \<in> set ks then
        (case g of (in_degree, children) \<Rightarrow>
          (case dict_get in_degree n of Inl e \<Rightarrow> Inl e | Inr d \<Rightarrow>
            (case dict_get children dep of Inl e \<Rightarrow> Inl e | Inr cs \<Rightarrow>
               add_deps ks n deps (dict_set in_degree n (d + 1), dict_set children dep (cs @ [n])))))
      else add_deps ks n deps g)"

fun add_edges :: "string list \<Rightarrow> ('v, 'w) group_filter list \<Rightarrow> graph \<Rightarrow> exn + graph" where
  "add_edges ks [] g = Inr g"
| "add_edges ks (node # rest) g =
     (case add_deps ks (name node) (remdups (depend_on node)) g of
        Inl e \<Rightarrow> Inl e
      | Inr g' \<Rightarrow> add_edges ks rest g')"

text \<open>
  The dictionaries \<open>in_degree\<close> and \<open>children\<close> as both \<open>is_cyclic\<close> and \<open>match\<close>
  build them from \<open>nodes\<close>.
\<close>

definition build_graph :: "(string, ('v, 'w) group_filter) dict \<Rightarrow> exn + graph" where
  "build_graph nodes =
     add_edges (map fst nodes) (map snd nodes)
       (map (\<lambda>kv. (fst kv, 0)) nodes, map (\<lambda>kv. (fst kv, [])) nodes)"

text \<open>\<open>[name for name, deg in in_degree.items() if deg == 0]\<close>\<close>

definition zero_in_degree :: "(string, int) dict \<Rightarrow> string list" where
  "zero_in_degree in_degree = map fst (filter (\<lambda>kv. snd kv = 0) in_degree)"

text \<open>
  The inner loop of Kahn's algorithm, over the children of the node just taken from
  the queue.
\<close>

fun kahn_children :: "string list \<Rightarrow> (string, int) dict \<times> string list \<Rightarrow> exn + (string, int) dict \<times> string list" where
  "kahn_children [] iq = Inr iq"
| "kahn_children (child # cs) iq =
     (case iq of (in_degree, queue) \<Rightarrow>
       (case dict_get in_degree child of Inl e \<Rightarrow> Inl e | Inr d \<Rightarrow>
          kahn_children cs
            (dict_set in_degree child (d - 1),
             if d - 1 = 0 then queue @ [child] else queue)))"


text \<open>
  The \<open>while queue\<close> loop of \<open>is_cyclic\<close>. Each pass takes one name from the queue,
  and a name is appended only when its counter falls from one to zero, so the number
  of positive counters plus the length of the queue decreases.
\<close>

definition positive_entries :: "(string, int) dict \<Rightarrow> nat" where
  "positive_entries in_degree = length (filter (\<lambda>kv. 0 < snd kv) in_degree)"

lemma positive_entries_dict_set:
  "map_of d k = Some v \<Longrightarrow>
   positive_entries (dict_set d k (v - 1)) = positive_entries d - (if v = 1 then 1 else 0)"
proof (induction d)
  case Nil
  then show ?case by simp
next
  case (Cons kv d)
  obtain k' v' where kv: "kv = (k', v')" by (cases kv)
  show ?case
  proof (cases "k' = k")
    case True
    with Cons.prems kv have "v' = v" by simp
    with True kv show ?thesis by (auto simp: positive_entries_def)
  next
    case False
    with Cons.prems kv have m: "map_of d k = Some v" by simp
    have pos: "v = 1 \<Longrightarrow> 0 < positive_entries d"
    proof -
      assume "v = 1"
      with m have "(k, 1) \<in> set d" by (auto dest: map_of_SomeD)
      then have "(k, 1) \<in> set (filter (\<lambda>kv. 0 < snd kv) d)" by simp
      then show "0 < positive_entries d"
        unfolding positive_entries_def by (metis length_greater_0_conv list.set_cases list.simps(3))
    qed
    from Cons.IH [OF m] False kv pos show ?thesis
      by (auto simp: positive_entries_def)
  qed
qed

lemma kahn_children_measure:
  "kahn_children cs (in_degree, queue) = Inr (in_degree', queue') \<Longrightarrow>
   positive_entries in_degree' + length queue' = positive_entries in_degree + length queue"
proof (induction cs arbitrary: in_degree queue)
  case Nil
  then show ?case by simp
next
  case (Cons child cs)
  from Cons.prems obtain d where d: "map_of in_degree child = Some d"
    by (auto simp: dict_get_def split: option.splits)
  from Cons.prems d have rec: "kahn_children cs (dict_set in_degree child (d - 1),
      if d - 1 = 0 then queue @ [child] else queue) = Inr (in_degree', queue')"
    by (simp add: dict_get_def)
  have pos: "d = 1 \<Longrightarrow> 0 < positive_entries in_degree"
  proof -
    assume "d = 1"
    with d have "(child, 1) \<in> set (filter (\<lambda>kv. 0 < snd kv) in_degree)"
      by (auto dest: map_of_SomeD)
    then show ?thesis
      unfolding positive_entries_def by (metis length_greater_0_conv list.set_cases list.simps(3))
  qed
  from Cons.IH [OF rec] positive_entries_dict_set [OF d] pos show ?case
    by (auto split: if_splits)
qed

function kahn_loop :: "(string, string list) dict \<Rightarrow> (string, int) dict \<Rightarrow> string list \<Rightarrow> nat \<Rightarrow> exn + nat" where
  "kahn_loop children in_degree queue visited_count =
     (case queue of
        [] \<Rightarrow> Inr visited_count
      | current # rest \<Rightarrow>
         (case dict_get children current of
            Inl e \<Rightarrow> Inl e
          | Inr cs \<Rightarrow>
             (case kahn_children cs (in_degree, rest) of
                Inl e \<Rightarrow> Inl e
              | Inr (in_degree', queue') \<Rightarrow>
                  kahn_loop children in_degree' queue' (visited_count + 1))))"
  by pat_completeness auto
termination
proof (relation "measure (\<lambda>(children, in_degree, queue, visited_count).
          positive_entries in_degree + length queue)", goal_cases)
  case 1
  show ?case by simp
next
  case (2 children in_degree queue visited_count current rest cs x in_degree' queue')
  then show ?case
    using kahn_children_measure [of cs in_degree rest in_degree' queue'] by simp
qed

declare kahn_loop.simps [simp del]

definition GroupFilter_is_cyclic :: "('v, 'w) group_filter list \<Rightarrow> exn + bool" where
  "GroupFilter_is_cyclic node_map =
     (let nodes = nodes_of node_map in
      case build_graph nodes of
        Inl e \<Rightarrow> Inl e
      | Inr (in_degree, children) \<Rightarrow>
         (case kahn_loop children in_degree (zero_in_degree in_degree) 0 of
            Inl e \<Rightarrow> Inl e
          | Inr visited_count \<Rightarrow> Inr (visited_count \<noteq> length nodes)))"


text \<open>\<open>node.pipeline(res, output)\<close> as \<open>match\<close> calls it on a group.\<close>

definition call_group_filter :: "('v, 'w) group_filter \<Rightarrow> ('v, 'w) ctx \<Rightarrow> bool \<times> ('v, 'w) ctx" where
  "call_group_filter node c =
     (case c of (r, s) \<Rightarrow> GroupFilter_pipeline node (r, log_call (GroupFilterCall (name node)) s))"

text \<open>
  The loop \<open>for child in children[name]\<close> of \<open>match\<close>: an edge fires when
  \<open>matched ^ (name in child_node.depend_on_inverted)\<close>.
\<close>

fun propagate :: "(string, ('v, 'w) group_filter) dict \<Rightarrow> string \<Rightarrow> bool \<Rightarrow> string list \<Rightarrow>
    (string, int) dict \<times> string list \<Rightarrow> exn + (string, int) dict \<times> string list" where
  "propagate nodes nm matched [] x = Inr x"
| "propagate nodes nm matched (child # cs) x =
     (case x of (in_degree, next_round) \<Rightarrow>
       (case dict_get nodes child of
          Inl e \<Rightarrow> Inl e
        | Inr child_node \<Rightarrow>
           (if matched \<noteq> (nm \<in> depend_on_inverted child_node) then
              (case dict_get in_degree child of
                 Inl e \<Rightarrow> Inl e
               | Inr d \<Rightarrow>
                  propagate nodes nm matched cs
                    (dict_set in_degree child (d - 1),
                     if depend_on_mode child_node = Mode_or \<or> d - 1 = 0
                     then next_round @ [child] else next_round))
            else propagate nodes nm matched cs (in_degree, next_round))))"

text \<open>
  One round: the loop \<open>for name in current_round\<close>. The triple holds \<open>in_degree\<close>,
  \<open>next_round\<close> and \<open>round_matched\<close>.
\<close>

type_synonym round_vars = "(string, int) dict \<times> string list \<times> string list"

fun match_round :: "(string, ('v, 'w) group_filter) dict \<Rightarrow> (string, string list) dict \<Rightarrow>
    string list \<Rightarrow> round_vars \<Rightarrow> ('v, 'w) ctx \<Rightarrow> (exn + round_vars) \<times> ('v, 'w) ctx" where
  "match_round nodes children [] x c = (Inr x, c)"
| "match_round nodes children (nm # rest) x c =
     (case x of (in_degree, next_round, round_matched) \<Rightarrow>
       (case dict_get nodes nm of
          Inl e \<Rightarrow> (Inl e, c)
        | Inr node \<Rightarrow>
           (case call_group_filter node c of (matched, c') \<Rightarrow>
             (case dict_get children nm of
                Inl e \<Rightarrow> (Inl e, c')
              | Inr cs \<Rightarrow>
                 (case propagate nodes nm matched cs (in_degree, next_round) of
                    Inl e \<Rightarrow> (Inl e, c')
                  | Inr (in_degree', next_round') \<Rightarrow>
                      match_round nodes children rest
                        (in_degree', next_round',
                         if matched then round_matched @ [nm] else round_matched) c')))))"

text \<open>
  The loop \<open>while current_round\<close>. It need not end on arbitrary dictionaries, so not
  returning is the value \<open>None\<close>.
\<close>

partial_function (option) match_loop :: "(string, ('v, 'w) group_filter) dict \<Rightarrow>
    (string, string list) dict \<Rightarrow> (string, int) dict \<Rightarrow> string list \<Rightarrow> string list \<Rightarrow>
    ('v, 'w) ctx \<Rightarrow> ((exn + string list) \<times> ('v, 'w) ctx) option" where
  "match_loop nodes children in_degree result current_round c =
     (if current_round = [] then Some (Inr result, c)
      else
        (case match_round nodes children current_round (in_degree, [], []) c of
           (Inl e, c') \<Rightarrow> Some (Inl e, c')
         | (Inr (in_degree', next_round, round_matched), c') \<Rightarrow>
             match_loop nodes children in_degree'
               (if round_matched \<noteq> [] then result @ round_matched else result)
               next_round c'))"

declare match_loop.simps [code]

text \<open>
  \<open>GroupFilter.match\<close>: \<open>Inr None\<close> is the source's \<open>return None\<close> on a cyclic graph,
  \<open>Inr (Some result)\<close> the list of matched names.
\<close>

definition GroupFilter_match :: "('v, 'w) group_filter list \<Rightarrow> ('v, 'w) ctx \<Rightarrow>
    ((exn + string list option) \<times> ('v, 'w) ctx) option" where
  "GroupFilter_match node_map c =
     (case GroupFilter_is_cyclic node_map of
        Inl e \<Rightarrow> Some (Inl e, c)
      | Inr True \<Rightarrow> Some (Inr None, c)
      | Inr False \<Rightarrow>
         (let nodes = nodes_of node_map in
          case build_graph nodes of
            Inl e \<Rightarrow> Some (Inl e, c)
          | Inr (in_degree, children) \<Rightarrow>
             (case match_loop nodes children in_degree [] (zero_in_degree in_degree) c of
                None \<Rightarrow> None
              | Some (Inl e, c') \<Rightarrow> Some (Inl e, c')
              | Some (Inr result, c') \<Rightarrow> Some (Inr (Some result), c'))))"

definition group_filter_pipeline :: "('v, 'w) group_filter list \<Rightarrow> ('v, 'w) ctx \<Rightarrow>
    ((exn + string list option) \<times> ('v, 'w) ctx) option" where
  "group_filter_pipeline fs c =
     (case GroupFilter_is_cyclic fs of
        Inl e \<Rightarrow> Some (Inl e, c)
      | Inr True \<Rightarrow> Some (Inl (ValueError ''Cyclic dependency detected in filters.''), c)
      | Inr False \<Rightarrow> GroupFilter_match fs c)"

section \<open>Actions and the action pipeline (action.py)\<close>

datatype action_config =
  ActionConfig (ac_name: string) (ac_standalone: bool) (ac_files: bool) (ac_dirs: bool)

text \<open>
  An action's \<open>pipeline\<close> method takes the \<open>simulate\<close> flag, returns nothing or
  raises, and may change the resource (its path, its \<open>walker_skip_pathes\<close>) and
  the world.
\<close>

record ('v, 'w) action =
  action_config :: action_config
  Action_pipeline :: "bool \<Rightarrow> 'v resource \<Rightarrow> 'w \<Rightarrow> exn option \<times> 'v resource \<times> 'w"

definition call_action :: "('v, 'w) action \<Rightarrow> bool \<Rightarrow> ('v, 'w) ctx \<Rightarrow> exn option \<times> ('v, 'w) ctx" where
  "call_action a simulate c =
     (case c of (r, s) \<Rightarrow>
        (case Action_pipeline a simulate r (world s) of (out, r', w') \<Rightarrow>
           (out, (r', log_call (ActionCall (ac_name (action_config a))) (s\<lparr>world := w'\<rparr>)))))"

text \<open>
  The generator \<open>action_pipeline\<close>, driven to its end by \<open>for action in ...: pass\<close>.
  The parameter \<open>pl\<close> is the \<open>pipeline\<close> method of the entries (actions or action
  groups). The result is \<open>None\<close> when the generator ends (after the last entry or
  at the \<open>break\<close>), and the exception with the entry last yielded when an exception
  other than \<open>StopIteration\<close> leaves it.
\<close>

fun action_pipeline :: "('a \<Rightarrow> bool \<Rightarrow> ('v, 'w) ctx \<Rightarrow> exn option \<times> ('v, 'w) ctx) \<Rightarrow> 'a list \<Rightarrow> bool \<Rightarrow>
    ('v, 'w) ctx \<Rightarrow> (exn \<times> 'a) option \<times> ('v, 'w) ctx" where
  "action_pipeline pl [] simulate c = (None, c)"
| "action_pipeline pl (a # rest) simulate c =
     (case pl a simulate c of
        (None, c') \<Rightarrow> action_pipeline pl rest simulate c'
      | (Some e, c') \<Rightarrow> (if e = StopIteration then (None, c') else (Some (e, a), c')))"

record ('v, 'w) group_action =
  ga_name :: string
  ga_actions :: "('v, 'w) action list"

definition GroupAction_pipeline :: "('v, 'w) group_action \<Rightarrow> bool \<Rightarrow> ('v, 'w) ctx \<Rightarrow> exn option \<times> ('v, 'w) ctx" where
  "GroupAction_pipeline g simulate c =
     (case action_pipeline call_action (ga_actions g) simulate c of
        (None, c') \<Rightarrow> (None, c')
      | (Some (e, a), c') \<Rightarrow> (Some e, c'))"

definition call_group_action :: "('v, 'w) group_action \<Rightarrow> bool \<Rightarrow> ('v, 'w) ctx \<Rightarrow> exn option \<times> ('v, 'w) ctx" where
  "call_group_action g simulate c =
     (case c of (r, s) \<Rightarrow> GroupAction_pipeline g simulate (r, log_call (GroupActionCall (ga_name g)) s))"


section \<open>The rule executor (rule.py)\<close>

text \<open>
  Modelled from the spec: \<open>ReportSummary\<close> of \<open>organize.utils\<close> is not among the
  sources. Section 4.4 describes it as the counts of successes and errors; both start
  at zero.
\<close>

record report_summary =
  success :: int
  errors :: int

definition ReportSummary :: report_summary where
  "ReportSummary = \<lparr>success = 0, errors = 0\<rparr>"

text \<open>
  The fields of \<open>Rule\<close> that \<open>execute\<close> reads. \<open>rule_filters\<close> is \<open>self.filters\<close>, a
  list of filters or of group filters, and \<open>rule_actions\<close> is \<open>self.actions\<close>.
\<close>

datatype ('v, 'w) filter_entry = Is_Filter "('v, 'w) filter" | Is_GroupFilter "('v, 'w) group_filter"

datatype ('v, 'w) action_entry = Is_Action "('v, 'w) action" | Is_GroupAction "('v, 'w) group_action"

record ('v, 'w) rule =
  enabled :: bool
  locations :: "string list"
  rule_filters :: "('v, 'w) filter_entry list"
  rule_filter_mode :: filter_mode
  rule_actions :: "('v, 'w) action_entry list"

text \<open>
  Modelled from the spec: \<open>classify_by_type\<close> of \<open>organize.utils\<close> is not among the
  sources. \<open>execute\<close> calls it to split \<open>self.filters\<close> into the group filters and the
  filters, and \<open>self.actions\<close> into the action groups and the actions (section 3: a rule
  holds a flat list or a map of groups); each part keeps the order of the list.
\<close>

fun classify_filters :: "('v, 'w) filter_entry list \<Rightarrow> ('v, 'w) group_filter list \<times> ('v, 'w) filter list" where
  "classify_filters [] = ([], [])"
| "classify_filters (Is_GroupFilter g # es) = (case classify_filters es of (gs, fs) \<Rightarrow> (g # gs, fs))"
| "classify_filters (Is_Filter f # es) = (case classify_filters es of (gs, fs) \<Rightarrow> (gs, f # fs))"

fun classify_actions :: "('v, 'w) action_entry list \<Rightarrow> ('v, 'w) group_action list \<times> ('v, 'w) action list" where
  "classify_actions [] = ([], [])"
| "classify_actions (Is_GroupAction g # es) = (case classify_actions es of (gs, as) \<Rightarrow> (g # gs, as))"
| "classify_actions (Is_Action a # es) = (case classify_actions es of (gs, as) \<Rightarrow> (gs, a # as))"

text \<open>
  The four lists \<open>group_filters\<close>, \<open>filters\<close>, \<open>group_actions\<close> and \<open>actions\<close> of
  \<open>execute\<close>. The source computes them once before its loop.
\<close>

definition group_filters :: "('v, 'w) rule \<Rightarrow> ('v, 'w) group_filter list" where
  "group_filters rule = fst (classify_filters (rule_filters rule))"

definition flat_filters :: "('v, 'w) rule \<Rightarrow> ('v, 'w) filter list" where
  "flat_filters rule = snd (classify_filters (rule_filters rule))"

definition group_actions :: "('v, 'w) rule \<Rightarrow> ('v, 'w) group_action list" where
  "group_actions rule = fst (classify_actions (rule_actions rule))"

definition flat_actions :: "('v, 'w) rule \<Rightarrow> ('v, 'w) action list" where
  "flat_actions rule = snd (classify_actions (rule_actions rule))"

text \<open>
  The \<open>try\<close> block that both branches of the loop share: drive the action pipeline;
  on its normal end merge the resource's \<open>walker_skip_pathes\<close> into \<open>skip_pathes\<close>
  and count a success; on an exception report it and count an error. The pair holds
  \<open>summary\<close> and \<open>skip_pathes\<close>; \<open>nm\<close> names the sender of the report.
\<close>

type_synonym tally = "report_summary \<times> string set"

definition try_actions :: "('a \<Rightarrow> bool \<Rightarrow> ('v, 'w) ctx \<Rightarrow> exn option \<times> ('v, 'w) ctx) \<Rightarrow> ('a \<Rightarrow> string) \<Rightarrow>
    'a list \<Rightarrow> bool \<Rightarrow> tally \<Rightarrow> ('v, 'w) ctx \<Rightarrow> tally \<times> ('v, 'w) ctx" where
  "try_actions pl nm acts simulate t c =
     (case t of (summary, skip_pathes) \<Rightarrow>
       (case action_pipeline pl acts simulate c of
          (None, (r, s)) \<Rightarrow>
            ((summary\<lparr>success := success summary + 1\<rparr>, skip_pathes \<union> walker_skip_pathes r), (r, s))
        | (Some (e, a), (r, s)) \<Rightarrow>
            ((summary\<lparr>errors := errors summary + 1\<rparr>, skip_pathes),
             (r, output_msg ''error'' (str e) (nm a) s))))"

text \<open>
  \<open>list(filter(lambda a: a.name in result, group_actions))\<close>: the membership test raises
  \<open>TypeError\<close> when \<open>result\<close> is \<open>None\<close> and there is an action group to test.
\<close>

definition matched_group_actions :: "string list option \<Rightarrow> ('v, 'w) group_action list \<Rightarrow>
    exn + ('v, 'w) group_action list" where
  "matched_group_actions result gas =
     (case result of
        Some names \<Rightarrow> Inr (filter (\<lambda>a. ga_name a \<in> set names) gas)
      | None \<Rightarrow> (if gas = [] then Inr [] else Inl (TypeError (''argument of type '' @ [CHR 0x27] @ ''NoneType'' @ [CHR 0x27] @ '' is not iterable''))))"

text \<open>The branch \<open>if group_filters:\<close> of the loop body.\<close>

definition group_branch :: "('v, 'w) rule \<Rightarrow> bool \<Rightarrow> tally \<Rightarrow> ('v, 'w) ctx \<Rightarrow>
    ((exn + tally) \<times> ('v, 'w) ctx) option" where
  "group_branch rule simulate t c =
     (case group_filter_pipeline (group_filters rule) c of
        None \<Rightarrow> None
      | Some (Inl e, c') \<Rightarrow> Some (Inl e, c')
      | Some (Inr result, c') \<Rightarrow>
         (case matched_group_actions result (group_actions rule) of
            Inl e \<Rightarrow> Some (Inl e, c')
          | Inr gas \<Rightarrow>
             (case try_actions call_group_action ga_name gas simulate t c' of
                (t', c'') \<Rightarrow> Some (Inr t', c''))))"

text \<open>The rest of the loop body: the flat filters and, on a match, the flat actions.\<close>

definition flat_branch :: "('v, 'w) rule \<Rightarrow> bool \<Rightarrow> tally \<Rightarrow> ('v, 'w) ctx \<Rightarrow> tally \<times> ('v, 'w) ctx" where
  "flat_branch rule simulate t c =
     (case filter_pipeline (flat_filters rule) (rule_filter_mode rule) c of
        (result, c') \<Rightarrow>
          (if result \<and> rule_actions rule \<noteq> []
           then try_actions call_action (\<lambda>a. ac_name (action_config a)) (flat_actions rule) simulate t c'
           else (t, c')))"

text \<open>\<open>res.path in skip_pathes\<close>\<close>

definition in_skip_pathes :: "'v resource \<Rightarrow> string set \<Rightarrow> bool" where
  "in_skip_pathes res skip_pathes = (case path res of None \<Rightarrow> False | Some p \<Rightarrow> p \<in> skip_pathes)"

text \<open>
  The body of the loop \<open>for res in self.walk(rule_nr=rule_nr)\<close> for a resource that
  is not skipped: the group branch when there are group filters, then the flat branch.
  An exception that leaves \<open>group_filter_pipeline\<close> is outside every \<open>try\<close> and
  ends \<open>execute\<close>. The resource is dropped at the end of the pass.
\<close>

definition process_resource :: "('v, 'w) rule \<Rightarrow> bool \<Rightarrow> 'v resource \<Rightarrow> tally \<Rightarrow> 'w state \<Rightarrow>
    ((exn + tally) \<times> 'w state) option" where
  "process_resource rule simulate res t s =
     (case (if group_filters rule \<noteq> [] then group_branch rule simulate t (res, s)
            else Some (Inr t, (res, s))) of
        None \<Rightarrow> None
      | Some (Inl e, (r, s')) \<Rightarrow> Some (Inl e, s')
      | Some (Inr t', c') \<Rightarrow>
         (case flat_branch rule simulate t' c' of (t'', (r, s'')) \<Rightarrow> Some (Inr t'', s'')))"

text \<open>
  The loop of the normal mode. Its list is the finite sequence of resources the walk
  yields during the scan.
\<close>

fun walk_loop :: "('v, 'w) rule \<Rightarrow> bool \<Rightarrow> 'v resource list \<Rightarrow> tally \<Rightarrow> 'w state \<Rightarrow>
    ((exn + report_summary) \<times> 'w state) option" where
  "walk_loop rule simulate [] t s = Some (Inr (fst t), s)"
| "walk_loop rule simulate (res # rest) t s =
     (if in_skip_pathes res (snd t) then walk_loop rule simulate rest t s
      else
        (case process_resource rule simulate res t s of
           None \<Rightarrow> None
         | Some (Inl e, s') \<Rightarrow> Some (Inl e, s')
         | Some (Inr t', s') \<Rightarrow> walk_loop rule simulate rest t' s'))"

text \<open>\<open>Resource(path=None, rule_nr=rule_nr)\<close> of the standalone mode.\<close>

definition standalone_resource :: "int \<Rightarrow> 'v resource" where
  "standalone_resource n =
     \<lparr>path = None, basedir = None, rule_nr = n, vars = Map.empty, walker_skip_pathes = {}\<rparr>"

text \<open>
  \<open>Rule.execute\<close>. \<open>walked\<close> is what \<open>self.walk\<close> yields; \<open>None\<close> stands for a run
  that does not return.
\<close>

definition execute :: "('v, 'w) rule \<Rightarrow> bool \<Rightarrow> int \<Rightarrow> 'v resource list \<Rightarrow> 'w state \<Rightarrow>
    ((exn + report_summary) \<times> 'w state) option" where
  "execute rule simulate n walked s =
     (if \<not> enabled rule then Some (Inr ReportSummary, s)
      else if locations rule = [] then
        (case action_pipeline call_action (flat_actions rule) simulate (standalone_resource n, s) of
           (None, (r, s')) \<Rightarrow> Some (Inr (ReportSummary\<lparr>success := 1\<rparr>), s')
         | (Some (e, a), (r, s')) \<Rightarrow>
             Some (Inr (ReportSummary\<lparr>errors := 1\<rparr>),
                   output_msg ''error'' (str e) (ac_name (action_config a)) s'))
      else walk_loop rule simulate walked (ReportSummary, {}) s)"


section \<open>Sample data and the notions the properties are stated with\<close>

definition const_filter :: "string \<Rightarrow> bool \<Rightarrow> (unit, unit) filter" where
  "const_filter nm b = \<lparr>filter_config = FilterConfig nm True True, Filter_pipeline = (\<lambda>r w. (Inr b, r, w))\<rparr>"

definition raising_filter :: "string \<Rightarrow> exn \<Rightarrow> (unit, unit) filter" where
  "raising_filter nm e = \<lparr>filter_config = FilterConfig nm True True, Filter_pipeline = (\<lambda>r w. (Inl e, r, w))\<rparr>"

definition some_resource :: "string \<Rightarrow> unit resource" where
  "some_resource p = \<lparr>path = Some p, basedir = None, rule_nr = 0, vars = Map.empty, walker_skip_pathes = {}\<rparr>"

definition empty_state :: "unit state" where
  "empty_state = \<lparr>world = (), sink = [], trace = []\<rparr>"

text \<open>The calls a list of filters makes when each of them is called once, in order.\<close>

definition filter_calls :: "('v, 'w) filter list \<Rightarrow> call list" where
  "filter_calls fs = map (\<lambda>f. FilterCall (fc_name (filter_config f))) fs"

text \<open>Sample actions: one that returns, one that raises, one that records a path to skip.\<close>

definition ok_action :: "string \<Rightarrow> (unit, unit) action" where
  "ok_action nm = \<lparr>action_config = ActionConfig nm True True True,
     Action_pipeline = (\<lambda>simulate r w. (None, r, w))\<rparr>"

definition raising_action :: "string \<Rightarrow> exn \<Rightarrow> (unit, unit) action" where
  "raising_action nm e = \<lparr>action_config = ActionConfig nm True True True,
     Action_pipeline = (\<lambda>simulate r w. (Some e, r, w))\<rparr>"

definition skip_action :: "string \<Rightarrow> string \<Rightarrow> (unit, unit) action" where
  "skip_action nm p = \<lparr>action_config = ActionConfig nm True True True,
     Action_pipeline = (\<lambda>simulate r w. (None, r\<lparr>walker_skip_pathes := insert p (walker_skip_pathes r)\<rparr>, w))\<rparr>"

text \<open>
  Every entry of a list returns normally when called in order; the result is the
  context after the last one.
\<close>

fun run_all :: "('a \<Rightarrow> bool \<Rightarrow> ('v, 'w) ctx \<Rightarrow> exn option \<times> ('v, 'w) ctx) \<Rightarrow> 'a list \<Rightarrow> bool \<Rightarrow>
    ('v, 'w) ctx \<Rightarrow> ('v, 'w) ctx option" where
  "run_all pl [] simulate c = Some c"
| "run_all pl (a # rest) simulate c =
     (case pl a simulate c of (None, c') \<Rightarrow> run_all pl rest simulate c' | (Some e, c') \<Rightarrow> None)"

definition action_calls :: "('v, 'w) action list \<Rightarrow> call list" where
  "action_calls acts = map (\<lambda>a. ActionCall (ac_name (action_config a))) acts"

definition sample_group_G :: "(unit, unit) group_action" where
  "sample_group_G = \<lparr>ga_name = ''G'',
     ga_actions = [ok_action ''a1'', raising_action ''a2'' StopIteration, ok_action ''a3'']\<rparr>"

definition sample_group_H :: "(unit, unit) group_action" where
  "sample_group_H = \<lparr>ga_name = ''H'', ga_actions = [ok_action ''b1'']\<rparr>"

text \<open>Sample group filters and rules.\<close>

definition sample_group_filter :: "string \<Rightarrow> bool \<Rightarrow> string list \<Rightarrow> depend_on_mode \<Rightarrow> string set \<Rightarrow> (unit, unit) group_filter" where
  "sample_group_filter nm b deps m iv = \<lparr>name = nm, filters = [const_filter nm b], filter_mode = Mode_all,
     depend_on = deps, depend_on_mode = m, depend_on_inverted = iv\<rparr>"

definition sample_rule :: "(unit, unit) group_filter list \<Rightarrow> (unit, unit) group_action list \<Rightarrow> (unit, unit) rule" where
  "sample_rule gfs gas = \<lparr>enabled = True, locations = [''loc''],
     rule_filters = map Is_GroupFilter gfs, rule_filter_mode = Mode_all,
     rule_actions = map Is_GroupAction gas\<rparr>"

definition counted_twice_rule :: "(unit, unit) rule" where
  "counted_twice_rule = sample_rule [sample_group_filter ''G'' True [] Mode_and {}]
     [\<lparr>ga_name = ''G'', ga_actions = [ok_action ''a'']\<rparr>]"

definition leaking_rule :: "(unit, unit) rule" where
  "leaking_rule = sample_rule [sample_group_filter ''G'' True [] Mode_and {}]
     [\<lparr>ga_name = ''G'', ga_actions = [skip_action ''s'' ''q'', raising_action ''b'' (OtherError ''boom'')]\<rparr>]"

definition cyclic_rule :: "(unit, unit) rule" where
  "cyclic_rule = sample_rule [sample_group_filter ''A'' True [''B''] Mode_and {},
      sample_group_filter ''B'' True [''A''] Mode_and {}]
     [\<lparr>ga_name = ''A'', ga_actions = [ok_action ''a'']\<rparr>]"

definition flat_failing_rule :: "(unit, unit) rule" where
  "flat_failing_rule = \<lparr>enabled = True, locations = [''loc''], rule_filters = [],
     rule_filter_mode = Mode_all,
     rule_actions = [Is_Action (skip_action ''s'' ''q''), Is_Action (raising_action ''b'' (OtherError ''boom''))]\<rparr>"

text \<open>Sample rules whose action records the path \<open>q\<close> for the walker to skip.\<close>

definition skipping_rule :: "(unit, unit) rule" where
  "skipping_rule = \<lparr>enabled = True, locations = [''loc''], rule_filters = [],
     rule_filter_mode = Mode_all, rule_actions = [Is_Action (skip_action ''s'' ''q'')]\<rparr>"

definition skipping_group_rule :: "(unit, unit) rule" where
  "skipping_group_rule = sample_rule [sample_group_filter ''G'' True [] Mode_and {}]
     [\<lparr>ga_name = ''G'', ga_actions = [skip_action ''s'' ''q'']\<rparr>]"

text \<open>The dictionary \<open>nodes\<close>: distinct keys, each value stored under its own name.\<close>

definition well_keyed :: "(string, ('v, 'w) group_filter) dict \<Rightarrow> bool" where
  "well_keyed d \<longleftrightarrow> distinct (map fst d) \<and> (\<forall>kv \<in> set d. name (snd kv) = fst kv)"

text \<open>
  The dependency graph of a collection: \<open>p\<close> is a parent of \<open>n\<close> when the group stored
  under \<open>n\<close> names \<open>p\<close> in its \<open>depend_on\<close> and \<open>p\<close> is a known name.
\<close>

definition parents :: "(string, ('v, 'w) group_filter) dict \<Rightarrow> string \<Rightarrow> string set" where
  "parents nodes n =
     (case map_of nodes n of None \<Rightarrow> {} | Some g \<Rightarrow> set (depend_on g) \<inter> fst ` set nodes)"

definition edges_of :: "(string, ('v, 'w) group_filter) dict \<Rightarrow> (string \<times> string) set" where
  "edges_of nodes = {(p, n). p \<in> parents nodes n}"

text \<open>
  The \<open>depend_on\<close> edges of a collection, restricted to known names, from the
  dependency to the group that depends on it.
\<close>

definition edges :: "('v, 'w) group_filter list \<Rightarrow> (string \<times> string) set" where
  "edges node_map = edges_of (nodes_of node_map)"

text \<open>What the two dictionaries hold once the nested loops have run.\<close>

definition built :: "(string, ('v, 'w) group_filter) dict \<Rightarrow> (string, int) dict \<Rightarrow>
    (string, string list) dict \<Rightarrow> bool" where
  "built nodes deg ch \<longleftrightarrow>
     map fst deg = map fst nodes \<and> map fst ch = map fst nodes \<and>
     (\<forall>n \<in> fst ` set nodes. map_of deg n = Some (int (card (parents nodes n)))) \<and>
     (\<forall>p \<in> fst ` set nodes. \<exists>cs. map_of ch p = Some cs \<and> distinct cs \<and> set cs = {n. p \<in> parents nodes n})"

definition on_cycle :: "(string, ('v, 'w) group_filter) dict \<Rightarrow> string set" where
  "on_cycle nodes = {n. (n, n) \<in> (edges_of nodes)\<^sup>+}"

text \<open>The names of the groups whose pipeline was called, read off a trace.\<close>

fun group_filter_calls :: "call list \<Rightarrow> string list" where
  "group_filter_calls [] = []"
| "group_filter_calls (GroupFilterCall n # cs) = n # group_filter_calls cs"
| "group_filter_calls (c # cs) = group_filter_calls cs"

text \<open>
  The edge from the evaluated group \<open>nm\<close> to its child \<open>x\<close> fires; the child enters the
  next frontier.
\<close>

definition fires :: "(string, ('v, 'w) group_filter) dict \<Rightarrow> string \<Rightarrow> bool \<Rightarrow> string \<Rightarrow> bool" where
  "fires nodes nm matched x =
     (case map_of nodes x of None \<Rightarrow> False | Some g \<Rightarrow> matched \<noteq> (nm \<in> depend_on_inverted g))"

definition enters :: "(string, ('v, 'w) group_filter) dict \<Rightarrow> (string, int) dict \<Rightarrow> string \<Rightarrow> bool \<Rightarrow>
    string \<Rightarrow> bool" where
  "enters nodes deg nm matched x =
     (case map_of nodes x of
        None \<Rightarrow> False
      | Some g \<Rightarrow> matched \<noteq> (nm \<in> depend_on_inverted g)
                 \<and> (depend_on_mode g = Mode_or \<or> map_of deg x = Some 1))"

text \<open>The dictionaries \<open>nodes\<close> and \<open>children\<close> as the matcher holds them.\<close>

definition wired :: "(string, ('v, 'w) group_filter) dict \<Rightarrow> (string, string list) dict \<Rightarrow> bool" where
  "wired nodes ch \<longleftrightarrow>
     well_keyed nodes \<and> map fst ch = map fst nodes \<and>
     (\<forall>p \<in> fst ` set nodes. \<exists>cs. map_of ch p = Some cs \<and> distinct cs \<and> set cs = {n. p \<in> parents nodes n})"

text \<open>
  The rounds of a run of the \<open>while\<close> loop that ends normally: for each round its
  frontier \<open>current_round\<close> and its matches \<open>round_matched\<close>, and the context at the end.
\<close>

inductive loop_rounds :: "(string, ('v, 'w) group_filter) dict \<Rightarrow> (string, string list) dict \<Rightarrow>
    (string, int) dict \<Rightarrow> string list \<Rightarrow> ('v, 'w) ctx \<Rightarrow> (string list \<times> string list) list \<Rightarrow>
    ('v, 'w) ctx \<Rightarrow> bool"
  for nodes children where
  ended: "loop_rounds nodes children in_degree [] c [] c"
| went_on: "current_round \<noteq> [] \<Longrightarrow>
     match_round nodes children current_round (in_degree, [], []) c =
       (Inr (in_degree', next_round, round_matched), c') \<Longrightarrow>
     loop_rounds nodes children in_degree' next_round c' rs c'' \<Longrightarrow>
     loop_rounds nodes children in_degree current_round c ((current_round, round_matched) # rs) c''"

text \<open>
  One pass of the \<open>while\<close> loop of \<open>match\<close> that ends normally, between two
  states of the loop: \<open>in_degree\<close>, \<open>result\<close>, \<open>current_round\<close> and the context.
\<close>

type_synonym ('v, 'w) loop_state = "(string, int) dict \<times> string list \<times> string list \<times> ('v, 'w) ctx"

inductive round_step :: "(string, ('v, 'w) group_filter) dict \<Rightarrow> (string, string list) dict \<Rightarrow>
    ('v, 'w) loop_state \<Rightarrow> ('v, 'w) loop_state \<Rightarrow> bool"
  for nodes children where
  pass: "current_round \<noteq> [] \<Longrightarrow>
     match_round nodes children current_round (in_degree, [], []) c =
       (Inr (in_degree', next_round, round_matched), c') \<Longrightarrow>
     round_step nodes children (in_degree, result, current_round, c)
       (in_degree', (if round_matched \<noteq> [] then result @ round_matched else result), next_round, c')"

text \<open>
  Within a round: \<open>S\<close> holds the groups evaluated so far, \<open>rest\<close> what is left of the
  frontier and \<open>nxt\<close> the next frontier so far. The counter of a group is at least
  the number of its parents not yet evaluated, and it is zero for every group that
  was or will be evaluated.
\<close>

definition inv_and :: "(string, ('v, 'w) group_filter) dict \<Rightarrow> string set \<Rightarrow> (string, int) dict \<Rightarrow>
    string list \<Rightarrow> string list \<Rightarrow> bool" where
  "inv_and nodes S deg rest nxt \<longleftrightarrow>
     map fst deg = map fst nodes \<and> S \<subseteq> fst ` set nodes \<and>
     distinct (rest @ nxt) \<and> set (rest @ nxt) \<subseteq> fst ` set nodes \<and> set (rest @ nxt) \<inter> S = {} \<and>
     (\<forall>n \<in> fst ` set nodes. \<exists>d. map_of deg n = Some d \<and> int (card (parents nodes n - S)) \<le> d) \<and>
     (\<forall>n \<in> S \<union> set (rest @ nxt). map_of deg n = Some 0)"

section \<open>The boolean combinator in mode \<open>all\<close>\<close>

lemma call_filter_trace:
  "call_filter f c = (out, c') \<Longrightarrow>
   trace (snd c') = trace (snd c) @ [FilterCall (fc_name (filter_config f))] \<and> sink (snd c') = sink (snd c)"
  by (auto simp: call_filter_def log_call_def split: prod.splits)

lemma All_pipeline_True:
  "All_pipeline fs c = (True, c') \<Longrightarrow>
   trace (snd c') = trace (snd c) @ filter_calls fs \<and> sink (snd c') = sink (snd c)"
proof (induction fs arbitrary: c)
  case Nil
  then show ?case by (simp add: filter_calls_def)
next
  case (Cons f fs)
  obtain out c1 where cf: "call_filter f c = (out, c1)" by (cases "call_filter f c")
  with Cons.prems have out: "out = Inr True" and rest: "All_pipeline fs c1 = (True, c')"
    by (auto split: sum.splits if_splits)
  from Cons.IH [OF rest] call_filter_trace [OF cf] show ?case
    by (simp add: filter_calls_def)
qed

lemma All_pipeline_append:
  "All_pipeline pre c = (True, c1) \<Longrightarrow> All_pipeline (pre @ fs) c = All_pipeline fs c1"
proof (induction pre arbitrary: c)
  case Nil
  then show ?case by simp
next
  case (Cons f pre)
  obtain out c0 where cf: "call_filter f c = (out, c0)" by (cases "call_filter f c")
  with Cons.prems have "out = Inr True" and "All_pipeline pre c0 = (True, c1)"
    by (auto split: sum.splits if_splits)
  with Cons.IH cf show ?case by simp
qed

text \<open>
  Claim C7. Let the filters before the i-th all return true (so that the i-th filter
  is called), and let the i-th filter raise or return false. Then the combinator in
  mode \<open>all\<close> returns false as an ordinary value; the calls it made are exactly those
  of the filters up to the i-th, so no later filter is invoked; and when the filter
  raised, one error report naming it as sender is added to the sink. The combinator
  has no exceptional outcome, so the caller (a sibling group of the matcher, or
  another filter list) goes on.
\<close>

theorem all_mode_stops_at_first_failure:
  assumes pre: "All_pipeline pre c = (True, c1)"
    and call: "call_filter f c1 = (out, c2)"
    and out: "out \<noteq> Inr True"
  shows "filter_pipeline (pre @ f # post) Mode_all c =
           (False, case out of Inl e \<Rightarrow> report_filter_error e f c2 | Inr b \<Rightarrow> c2)
       \<and> trace (snd (snd (filter_pipeline (pre @ f # post) Mode_all c))) =
           trace (snd c) @ filter_calls (pre @ [f])
       \<and> sink (snd (snd (filter_pipeline (pre @ f # post) Mode_all c))) =
           sink (snd c) @ (case out of Inl e \<Rightarrow> [Report ''error'' (str e) (fc_name (filter_config f))] | Inr b \<Rightarrow> [])"
proof -
  have step: "All_pipeline (f # post) c1 =
      (False, case out of Inl e \<Rightarrow> report_filter_error e f c2 | Inr b \<Rightarrow> c2)"
    using call out by (auto split: sum.splits)
  have res: "filter_pipeline (pre @ f # post) Mode_all c =
      (False, case out of Inl e \<Rightarrow> report_filter_error e f c2 | Inr b \<Rightarrow> c2)"
    using All_pipeline_append [OF pre, of "f # post"] step by simp
  have t1: "trace (snd c1) = trace (snd c) @ filter_calls pre" and s1: "sink (snd c1) = sink (snd c)"
    using All_pipeline_True [OF pre] by simp_all
  have t2: "trace (snd c2) = trace (snd c1) @ [FilterCall (fc_name (filter_config f))]"
    and s2: "sink (snd c2) = sink (snd c1)"
    using call_filter_trace [OF call] by simp_all
  show ?thesis
    unfolding res using t1 t2 s1 s2
    by (auto simp: filter_calls_def report_filter_error_def output_msg_def split: sum.splits prod.splits)
qed

theorem all_mode_stops_at_first_failure_witness:
  "filter_pipeline [const_filter ''a'' True, raising_filter ''b'' (OtherError ''boom''), const_filter ''c'' True]
      Mode_all (some_resource ''p'', empty_state) =
     (False, (some_resource ''p'',
        \<lparr>world = (), sink = [Report ''error'' ''boom'' ''b''], trace = [FilterCall ''a'', FilterCall ''b'']\<rparr>))"
  using all_mode_stops_at_first_failure [of "[const_filter ''a'' True]" "(some_resource ''p'', empty_state)"
      "(some_resource ''p'', \<lparr>world = (), sink = [], trace = [FilterCall ''a'']\<rparr>)"
      "raising_filter ''b'' (OtherError ''boom'')" "Inl (OtherError ''boom'')"
      "(some_resource ''p'', \<lparr>world = (), sink = [], trace = [FilterCall ''a'', FilterCall ''b'']\<rparr>)"
      "[const_filter ''c'' True]"]
  by (simp add: const_filter_def raising_filter_def some_resource_def empty_state_def call_filter_def
      log_call_def report_filter_error_def output_msg_def)

section \<open>The stop signal of the action pipeline\<close>

lemma call_action_trace:
  "call_action a simulate c = (out, c') \<Longrightarrow>
   trace (snd c') = trace (snd c) @ [ActionCall (ac_name (action_config a))] \<and> sink (snd c') = sink (snd c)"
  by (auto simp: call_action_def log_call_def split: prod.splits)

lemma run_all_trace:
  "run_all call_action acts simulate c = Some c' \<Longrightarrow>
   trace (snd c') = trace (snd c) @ action_calls acts"
proof (induction acts arbitrary: c)
  case Nil
  then show ?case by (simp add: action_calls_def)
next
  case (Cons a acts)
  obtain out c1 where ca: "call_action a simulate c = (out, c1)" by (cases "call_action a simulate c")
  with Cons.prems have rest: "run_all call_action acts simulate c1 = Some c'"
    by (auto split: option.splits)
  from Cons.IH [OF rest] call_action_trace [OF ca] show ?case
    by (simp add: action_calls_def)
qed

lemma action_pipeline_after_run_all:
  "run_all pl pre simulate c = Some c1 \<Longrightarrow>
   action_pipeline pl (pre @ rest) simulate c = action_pipeline pl rest simulate c1"
proof (induction pre arbitrary: c)
  case Nil
  then show ?case by simp
next
  case (Cons a pre)
  obtain out c0 where ca: "pl a simulate c = (out, c0)" by (cases "pl a simulate c")
  with Cons.prems have "out = None" and "run_all pl pre simulate c0 = Some c1"
    by (auto split: option.splits)
  with Cons.IH ca show ?case by simp
qed

lemma action_pipeline_run_all:
  "run_all pl acts simulate c = Some c1 \<Longrightarrow> action_pipeline pl acts simulate c = (None, c1)"
  using action_pipeline_after_run_all [of pl acts simulate c c1 "[]"] by simp

lemma action_pipeline_never_stop:
  "action_pipeline pl acts simulate c = (Some (e, a), c') \<Longrightarrow> e \<noteq> StopIteration"
proof (induction acts arbitrary: c)
  case Nil
  then show ?case by simp
next
  case (Cons b acts)
  then show ?case
    by (auto split: prod.splits option.splits if_splits)
qed

text \<open>
  Claim C9. Let an action \<open>a\<close> of the group \<open>g\<close> raise \<open>StopIteration\<close> after the
  actions before it returned normally. Then the group's own \<open>pipeline\<close> returns
  normally; the calls made inside the group are those of the actions up to \<open>a\<close>, so
  the group's remaining actions are skipped; the outer pipeline goes on with the
  groups that follow \<open>g\<close>; and when those return normally the resource is counted as
  one success and no error, its \<open>walker_skip_pathes\<close> merged.
\<close>

theorem stop_signal_ends_only_its_group:
  assumes acts: "ga_actions g = pre @ a # post"
    and pre: "run_all call_action pre simulate (r, log_call (GroupActionCall (ga_name g)) s) = Some c1"
    and stop: "call_action a simulate c1 = (Some StopIteration, c2)"
    and sib: "run_all call_group_action siblings simulate c2 = Some c3"
  shows "call_group_action g simulate (r, s) = (None, c2)
       \<and> trace (snd c2) = trace s @ GroupActionCall (ga_name g) # action_calls (pre @ [a])
       \<and> action_pipeline call_group_action (g # others) simulate (r, s) =
           action_pipeline call_group_action others simulate c2
       \<and> try_actions call_group_action ga_name (g # siblings) simulate (summary, skip_pathes) (r, s) =
           ((summary\<lparr>success := success summary + 1\<rparr>, skip_pathes \<union> walker_skip_pathes (fst c3)), c3)"
proof -
  have inner: "action_pipeline call_action (ga_actions g) simulate
      (r, log_call (GroupActionCall (ga_name g)) s) = (None, c2)"
    unfolding acts using action_pipeline_after_run_all [OF pre, of "a # post"] stop by simp
  then have grp: "call_group_action g simulate (r, s) = (None, c2)"
    by (simp add: call_group_action_def GroupAction_pipeline_def)
  have tr: "trace (snd c2) = trace s @ GroupActionCall (ga_name g) # action_calls (pre @ [a])"
    using run_all_trace [OF pre] call_action_trace [OF stop]
    by (simp add: log_call_def action_calls_def)
  have outer: "action_pipeline call_group_action (g # others) simulate (r, s) =
      action_pipeline call_group_action others simulate c2" for others
    using grp by simp
  have "action_pipeline call_group_action (g # siblings) simulate (r, s) = (None, c3)"
    using outer [of siblings] action_pipeline_run_all [OF sib] by simp
  then have "try_actions call_group_action ga_name (g # siblings) simulate (summary, skip_pathes) (r, s) =
      ((summary\<lparr>success := success summary + 1\<rparr>, skip_pathes \<union> walker_skip_pathes (fst c3)), c3)"
    by (cases c3) (simp add: try_actions_def)
  with grp tr outer show ?thesis by simp
qed

theorem stop_signal_ends_only_its_group_witness:
  "try_actions call_group_action ga_name [sample_group_G, sample_group_H] False (ReportSummary, {})
      (some_resource ''p'', empty_state) =
     ((\<lparr>success = 1, errors = 0\<rparr>, {}),
      (some_resource ''p'', \<lparr>world = (), sink = [],
         trace = [GroupActionCall ''G'', ActionCall ''a1'', ActionCall ''a2'',
                  GroupActionCall ''H'', ActionCall ''b1'']\<rparr>))"
  using stop_signal_ends_only_its_group [where g = sample_group_G and pre = "[ok_action ''a1'']"
      and a = "raising_action ''a2'' StopIteration" and post = "[ok_action ''a3'']"
      and simulate = False and r = "some_resource ''p''" and s = empty_state
      and ?c1.0 = "(some_resource ''p'', \<lparr>world = (), sink = [], trace = [GroupActionCall ''G'', ActionCall ''a1'']\<rparr>)"
      and ?c2.0 = "(some_resource ''p'', \<lparr>world = (), sink = [],
          trace = [GroupActionCall ''G'', ActionCall ''a1'', ActionCall ''a2'']\<rparr>)"
      and siblings = "[sample_group_H]"
      and ?c3.0 = "(some_resource ''p'', \<lparr>world = (), sink = [],
          trace = [GroupActionCall ''G'', ActionCall ''a1'', ActionCall ''a2'',
                   GroupActionCall ''H'', ActionCall ''b1'']\<rparr>)"
      and summary = ReportSummary and skip_pathes = "{}"]
  by (simp add: sample_group_G_def sample_group_H_def ok_action_def raising_action_def
      some_resource_def empty_state_def call_action_def call_group_action_def GroupAction_pipeline_def
      log_call_def ReportSummary_def)

section \<open>What one pass of the loop body does to the tally\<close>

lemma try_actions_cases:
  assumes "try_actions pl nm acts simulate (summary, skip_pathes) c = ((summary', skip_pathes'), c')"
  shows "(summary' = summary\<lparr>success := success summary + 1\<rparr> \<and> skip_pathes \<subseteq> skip_pathes')
       \<or> (summary' = summary\<lparr>errors := errors summary + 1\<rparr> \<and> skip_pathes' = skip_pathes)"
  using assms by (auto simp: try_actions_def split: prod.splits option.splits)

lemma group_branch_cases:
  assumes "group_branch rule simulate (summary, skip_pathes) c = Some (Inr (summary', skip_pathes'), c')"
  shows "(summary' = summary\<lparr>success := success summary + 1\<rparr> \<and> skip_pathes \<subseteq> skip_pathes')
       \<or> (summary' = summary\<lparr>errors := errors summary + 1\<rparr> \<and> skip_pathes' = skip_pathes)"
proof -
  from assms obtain gas c1 where
    "try_actions call_group_action ga_name gas simulate (summary, skip_pathes) c1 = ((summary', skip_pathes'), c')"
    by (auto simp: group_branch_def split: option.splits prod.splits sum.splits)
  then show ?thesis by (rule try_actions_cases)
qed

lemma flat_branch_cases:
  assumes "flat_branch rule simulate (summary, skip_pathes) c = ((summary', skip_pathes'), c')"
  shows "(summary' = summary\<lparr>success := success summary + 1\<rparr> \<and> skip_pathes \<subseteq> skip_pathes')
       \<or> (summary' = summary\<lparr>errors := errors summary + 1\<rparr> \<and> skip_pathes' = skip_pathes)
       \<or> (summary' = summary \<and> skip_pathes' = skip_pathes)"
proof -
  obtain result c1 where fp: "filter_pipeline (flat_filters rule) (rule_filter_mode rule) c = (result, c1)"
    by (cases "filter_pipeline (flat_filters rule) (rule_filter_mode rule) c")
  show ?thesis
  proof (cases "result \<and> rule_actions rule \<noteq> []")
    case True
    with assms fp have "try_actions call_action (\<lambda>a. ac_name (action_config a)) (flat_actions rule)
        simulate (summary, skip_pathes) c1 = ((summary', skip_pathes'), c')"
      by (simp add: flat_branch_def)
    from try_actions_cases [OF this] show ?thesis by blast
  next
    case False
    with assms fp show ?thesis by (auto simp: flat_branch_def)
  qed
qed

lemma process_resource_cases:
  assumes "process_resource rule simulate res (summary, skip_pathes) s = Some (Inr (summary', skip_pathes'), s')"
  shows "skip_pathes \<subseteq> skip_pathes'
       \<and> success summary \<le> success summary' \<and> errors summary \<le> errors summary'
       \<and> success summary' + errors summary' \<le> success summary + errors summary
             + (if group_filters rule = [] then 1 else 2)
       \<and> (success summary' = success summary \<longrightarrow> skip_pathes' = skip_pathes)"
proof -
  obtain summary1 skip1 c1 where
    g: "(if group_filters rule \<noteq> [] then group_branch rule simulate (summary, skip_pathes) (res, s)
         else Some (Inr (summary, skip_pathes), (res, s))) = Some (Inr (summary1, skip1), c1)"
    and f: "fst (flat_branch rule simulate (summary1, skip1) c1) = (summary', skip_pathes')"
    using assms by (auto simp: process_resource_def split: option.splits prod.splits sum.splits)
  obtain c2 where f': "flat_branch rule simulate (summary1, skip1) c1 = ((summary', skip_pathes'), c2)"
    using f by (cases "flat_branch rule simulate (summary1, skip1) c1") auto
  show ?thesis
  proof (cases "group_filters rule = []")
    case True
    with g have "summary1 = summary" "skip1 = skip_pathes" by simp_all
    with flat_branch_cases [OF f'] True show ?thesis by auto
  next
    case False
    with g have "group_branch rule simulate (summary, skip_pathes) (res, s) = Some (Inr (summary1, skip1), c1)"
      by simp
    from group_branch_cases [OF this] flat_branch_cases [OF f'] False show ?thesis by auto
  qed
qed

lemma in_skip_pathes_mono:
  "in_skip_pathes res A \<Longrightarrow> A \<subseteq> B \<Longrightarrow> in_skip_pathes res B"
  by (auto simp: in_skip_pathes_def split: option.splits)

lemma walk_loop_skips:
  assumes "in_skip_pathes res (snd t)"
  shows "walk_loop rule simulate (mid @ res # rest) t s = walk_loop rule simulate (mid @ rest) t s"
  using assms
proof (induction mid arbitrary: t s)
  case Nil
  then show ?case by simp
next
  case (Cons m mid)
  show ?case
  proof (cases "in_skip_pathes m (snd t)")
    case True
    with Cons show ?thesis by simp
  next
    case False
    show ?thesis
    proof (cases "process_resource rule simulate m t s")
      case None
      with False show ?thesis by simp
    next
      case (Some out)
      obtain x s1 where out: "out = (x, s1)" by (cases out)
      show ?thesis
      proof (cases x)
        case (Inl e)
        with False Some out show ?thesis by simp
      next
        case (Inr t1)
        have "process_resource rule simulate m (fst t, snd t) s = Some (Inr (fst t1, snd t1), s1)"
          using Some out Inr by simp
        from process_resource_cases [OF this] have "snd t \<subseteq> snd t1" by simp
        with Cons.prems have "in_skip_pathes res (snd t1)" by (rule in_skip_pathes_mono)
        from Cons.IH [OF this] False Some out Inr show ?thesis by simp
      qed
    qed
  qed
qed

lemma try_actions_ok:
  "action_pipeline pl acts simulate c = (None, c') \<Longrightarrow>
   try_actions pl nm acts simulate t c =
     ((fst t\<lparr>success := success (fst t) + 1\<rparr>, snd t \<union> walker_skip_pathes (fst c')), c')"
  by (cases t; cases c') (simp add: try_actions_def)

lemma flat_branch_grows:
  "snd t \<subseteq> snd (fst (flat_branch rule simulate t c))"
proof -
  obtain summary skip where t: "t = (summary, skip)" by (cases t)
  obtain summary' skip' c' where f: "flat_branch rule simulate (summary, skip) c = ((summary', skip'), c')"
    by (metis surj_pair)
  from flat_branch_cases [OF f] have "skip \<subseteq> skip'" by auto
  with t f show ?thesis by simp
qed

lemma walk_loop_after_pass:
  assumes "\<not> in_skip_pathes R (snd t)"
    and "process_resource rule simulate R t s = Some (Inr t', s')"
    and "path res = Some p" and "p \<in> snd t'"
  shows "walk_loop rule simulate (R # mid @ res # rest) t s = walk_loop rule simulate (R # mid @ rest) t s"
proof -
  have "in_skip_pathes res (snd t')" using assms(3,4) by (simp add: in_skip_pathes_def)
  from walk_loop_skips [OF this, of rule simulate mid rest s'] assms(1,2) show ?thesis by simp
qed

section \<open>Paths to skip\<close>

text \<open>
  Claim C8. The resource \<open>R\<close> has its turn in the loop, and an action run of its pass
  ends normally, in the group branch (the pipeline over the matched action groups) or
  in the flat branch (the pipeline over the actions), leaving the path \<open>p\<close> among the
  resource's \<open>walker_skip_pathes\<close>. Then the pass of \<open>R\<close> returns a tally whose skip
  set holds \<open>p\<close>, and a resource with the path \<open>p\<close> anywhere later in the walk is
  never evaluated: the run of the loop is the run without that resource, with the same
  summary, the same reports and the same calls.
\<close>

theorem skipped_resources_are_never_evaluated:
  assumes turn: "\<not> in_skip_pathes R (snd t)"
    and later: "path res = Some p"
  shows "(group_filters rule \<noteq> []
          \<and> group_filter_pipeline (group_filters rule) (R, s) = Some (Inr names, c0)
          \<and> matched_group_actions names (group_actions rule) = Inr gas
          \<and> action_pipeline call_group_action gas simulate c0 = (None, c1)
          \<and> p \<in> walker_skip_pathes (fst c1) \<longrightarrow>
            (\<exists>t' s'. process_resource rule simulate R t s = Some (Inr t', s') \<and> p \<in> snd t')
          \<and> walk_loop rule simulate (R # mid @ res # rest) t s =
              walk_loop rule simulate (R # mid @ rest) t s)
       \<and> ((if group_filters rule \<noteq> [] then group_branch rule simulate t (R, s)
            else Some (Inr t, (R, s))) = Some (Inr t1, c1')
          \<and> filter_pipeline (flat_filters rule) (rule_filter_mode rule) c1' = (True, c2)
          \<and> rule_actions rule \<noteq> []
          \<and> action_pipeline call_action (flat_actions rule) simulate c2 = (None, c3)
          \<and> p \<in> walker_skip_pathes (fst c3) \<longrightarrow>
            (\<exists>t' s'. process_resource rule simulate R t s = Some (Inr t', s') \<and> p \<in> snd t')
          \<and> walk_loop rule simulate (R # mid @ res # rest) t s =
              walk_loop rule simulate (R # mid @ rest) t s)"
proof (rule conjI; rule impI)
  assume a: "group_filters rule \<noteq> []
          \<and> group_filter_pipeline (group_filters rule) (R, s) = Some (Inr names, c0)
          \<and> matched_group_actions names (group_actions rule) = Inr gas
          \<and> action_pipeline call_group_action gas simulate c0 = (None, c1)
          \<and> p \<in> walker_skip_pathes (fst c1)"
  then have ok: "action_pipeline call_group_action gas simulate c0 = (None, c1)" by simp
  let ?t1 = "(fst t\<lparr>success := success (fst t) + 1\<rparr>, snd t \<union> walker_skip_pathes (fst c1))"
  have g: "group_branch rule simulate t (R, s) = Some (Inr ?t1, c1)"
    using a try_actions_ok [OF ok, of ga_name t] by (simp add: group_branch_def)
  obtain t2 r2 s2 where f: "flat_branch rule simulate ?t1 c1 = (t2, (r2, s2))"
    by (metis surj_pair)
  have pr: "process_resource rule simulate R t s = Some (Inr t2, s2)"
    using a g f by (simp add: process_resource_def)
  have "snd ?t1 \<subseteq> snd t2" using flat_branch_grows [of ?t1 rule simulate c1] f by simp
  with a have p: "p \<in> snd t2" by auto
  from pr p walk_loop_after_pass [OF turn pr later p]
  show "(\<exists>t' s'. process_resource rule simulate R t s = Some (Inr t', s') \<and> p \<in> snd t')
          \<and> walk_loop rule simulate (R # mid @ res # rest) t s =
              walk_loop rule simulate (R # mid @ rest) t s"
    by blast
next
  assume a: "(if group_filters rule \<noteq> [] then group_branch rule simulate t (R, s)
            else Some (Inr t, (R, s))) = Some (Inr t1, c1')
          \<and> filter_pipeline (flat_filters rule) (rule_filter_mode rule) c1' = (True, c2)
          \<and> rule_actions rule \<noteq> []
          \<and> action_pipeline call_action (flat_actions rule) simulate c2 = (None, c3)
          \<and> p \<in> walker_skip_pathes (fst c3)"
  then have ok: "action_pipeline call_action (flat_actions rule) simulate c2 = (None, c3)" by simp
  let ?t2 = "(fst t1\<lparr>success := success (fst t1) + 1\<rparr>, snd t1 \<union> walker_skip_pathes (fst c3))"
  have f: "flat_branch rule simulate t1 c1' = (?t2, c3)"
    using a try_actions_ok [OF ok, of "\<lambda>a. ac_name (action_config a)" t1] by (simp add: flat_branch_def)
  have pr: "process_resource rule simulate R t s = Some (Inr ?t2, snd c3)"
    using a f by (cases c3) (simp add: process_resource_def)
  have p: "p \<in> snd ?t2" using a by simp
  from pr p walk_loop_after_pass [OF turn pr later p]
  show "(\<exists>t' s'. process_resource rule simulate R t s = Some (Inr t', s') \<and> p \<in> snd t')
          \<and> walk_loop rule simulate (R # mid @ res # rest) t s =
              walk_loop rule simulate (R # mid @ rest) t s"
    by blast
qed

theorem skipped_resources_are_never_evaluated_witness:
  "action_pipeline call_action (flat_actions skipping_rule) False (some_resource ''p'', empty_state) =
     (None, ((some_resource ''p'')\<lparr>walker_skip_pathes := {''q''}\<rparr>,
             \<lparr>world = (), sink = [], trace = [ActionCall ''s'']\<rparr>))
   \<and> execute skipping_rule False 0
        [some_resource ''p'', some_resource ''m'', some_resource ''q'', some_resource ''r''] empty_state =
     execute skipping_rule False 0
        [some_resource ''p'', some_resource ''m'', some_resource ''r''] empty_state
   \<and> map_option (\<lambda>x. (fst x, trace (snd x)))
        (execute skipping_rule False 0
           [some_resource ''p'', some_resource ''m'', some_resource ''q'', some_resource ''r''] empty_state) =
     Some (Inr \<lparr>success = 3, errors = 0\<rparr>, [ActionCall ''s'', ActionCall ''s'', ActionCall ''s''])
   \<and> execute skipping_group_rule False 0
        [some_resource ''p'', some_resource ''m'', some_resource ''q'', some_resource ''r''] empty_state =
     execute skipping_group_rule False 0
        [some_resource ''p'', some_resource ''m'', some_resource ''r''] empty_state"
proof -
  let ?c3 = "((some_resource ''p'')\<lparr>walker_skip_pathes := {''q''}\<rparr>,
             \<lparr>world = (), sink = [], trace = [ActionCall ''s'']\<rparr>)"
  let ?g0 = "(some_resource ''p'', \<lparr>world = (), sink = [], trace = [GroupFilterCall ''G'', FilterCall ''G'']\<rparr>)"
  let ?g1 = "((some_resource ''p'')\<lparr>walker_skip_pathes := {''q''}\<rparr>,
             \<lparr>world = (), sink = [],
                trace = [GroupFilterCall ''G'', FilterCall ''G'', GroupActionCall ''G'', ActionCall ''s'']\<rparr>)"
  have turn: "\<not> in_skip_pathes (some_resource ''p'') (snd (ReportSummary, {}))"
    by (simp add: in_skip_pathes_def some_resource_def)
  have later: "path (some_resource ''q'') = Some ''q''" by (simp add: some_resource_def)
  have f1: "(if group_filters skipping_rule \<noteq> []
             then group_branch skipping_rule False (ReportSummary, {}) (some_resource ''p'', empty_state)
             else Some (Inr (ReportSummary, {}), (some_resource ''p'', empty_state)))
            = Some (Inr (ReportSummary, {}), (some_resource ''p'', empty_state))"
    by (simp add: group_filters_def skipping_rule_def)
  have f2: "filter_pipeline (flat_filters skipping_rule) (rule_filter_mode skipping_rule)
              (some_resource ''p'', empty_state) = (True, (some_resource ''p'', empty_state))"
    by (simp add: flat_filters_def skipping_rule_def)
  have f3: "rule_actions skipping_rule \<noteq> []" by (simp add: skipping_rule_def)
  have f4: "action_pipeline call_action (flat_actions skipping_rule) False (some_resource ''p'', empty_state)
              = (None, ?c3)"
    by (simp add: flat_actions_def skipping_rule_def skip_action_def call_action_def log_call_def
        some_resource_def empty_state_def)
  have f5: "''q'' \<in> walker_skip_pathes (fst ?c3)" by simp
  have g1: "group_filters skipping_group_rule \<noteq> []"
    by (simp add: group_filters_def skipping_group_rule_def sample_rule_def)
  have g2: "group_filter_pipeline (group_filters skipping_group_rule) (some_resource ''p'', empty_state)
              = Some (Inr (Some [''G'']), ?g0)"
    by (simp add: group_filter_pipeline_def GroupFilter_match_def GroupFilter_is_cyclic_def nodes_of_def
        build_graph_def zero_in_degree_def dict_get_def kahn_loop.simps match_loop.simps
        call_group_filter_def GroupFilter_pipeline_def sample_group_filter_def const_filter_def
        call_filter_def log_call_def empty_state_def group_filters_def skipping_group_rule_def
        sample_rule_def)
  have g3: "matched_group_actions (Some [''G'']) (group_actions skipping_group_rule)
              = Inr [\<lparr>ga_name = ''G'', ga_actions = [skip_action ''s'' ''q'']\<rparr>]"
    by (simp add: matched_group_actions_def group_actions_def skipping_group_rule_def sample_rule_def)
  have g4: "action_pipeline call_group_action [\<lparr>ga_name = ''G'', ga_actions = [skip_action ''s'' ''q'']\<rparr>]
              False ?g0 = (None, ?g1)"
    by (simp add: call_group_action_def GroupAction_pipeline_def skip_action_def call_action_def
        log_call_def some_resource_def)
  have g5: "''q'' \<in> walker_skip_pathes (fst ?g1)" by simp
  note th = skipped_resources_are_never_evaluated [OF turn later,
      where mid = "[some_resource ''m'']" and rest = "[some_resource ''r'']" and simulate = False
        and s = empty_state]
  have flat: "walk_loop skipping_rule False
        (some_resource ''p'' # [some_resource ''m''] @ some_resource ''q'' # [some_resource ''r''])
        (ReportSummary, {}) empty_state =
      walk_loop skipping_rule False (some_resource ''p'' # [some_resource ''m''] @ [some_resource ''r''])
        (ReportSummary, {}) empty_state"
    using th [where rule = skipping_rule, THEN conjunct2] f1 f2 f3 f4 f5 by blast
  have grp: "walk_loop skipping_group_rule False
        (some_resource ''p'' # [some_resource ''m''] @ some_resource ''q'' # [some_resource ''r''])
        (ReportSummary, {}) empty_state =
      walk_loop skipping_group_rule False (some_resource ''p'' # [some_resource ''m''] @ [some_resource ''r''])
        (ReportSummary, {}) empty_state"
    using th [where rule = skipping_group_rule, THEN conjunct1] g1 g2 g3 g4 g5 by blast
  have e1: "execute skipping_rule False 0
        [some_resource ''p'', some_resource ''m'', some_resource ''q'', some_resource ''r''] empty_state =
     execute skipping_rule False 0
        [some_resource ''p'', some_resource ''m'', some_resource ''r''] empty_state"
    using flat by (simp add: execute_def skipping_rule_def)
  have e2: "execute skipping_group_rule False 0
        [some_resource ''p'', some_resource ''m'', some_resource ''q'', some_resource ''r''] empty_state =
     execute skipping_group_rule False 0
        [some_resource ''p'', some_resource ''m'', some_resource ''r''] empty_state"
    using grp by (simp add: execute_def skipping_group_rule_def sample_rule_def)
  have tr: "map_option (\<lambda>x. (fst x, trace (snd x)))
        (execute skipping_rule False 0
           [some_resource ''p'', some_resource ''m'', some_resource ''q'', some_resource ''r''] empty_state) =
     Some (Inr \<lparr>success = 3, errors = 0\<rparr>, [ActionCall ''s'', ActionCall ''s'', ActionCall ''s''])"
    by code_simp
  from f4 e1 tr e2 show ?thesis by (intro conjI)
qed

section \<open>Accounting\<close>

lemma walk_loop_bound:
  assumes "walk_loop rule simulate walked (summary, skip_pathes) s = Some (Inr final, s')"
  shows "success summary \<le> success final \<and> errors summary \<le> errors final
       \<and> success final + errors final \<le> success summary + errors summary
             + (if group_filters rule = [] then 1 else 2) * int (length walked)"
  using assms
proof (induction walked arbitrary: summary skip_pathes s)
  case Nil
  then show ?case by simp
next
  case (Cons res walked)
  show ?case
  proof (cases "in_skip_pathes res skip_pathes")
    case True
    with Cons.prems have "walk_loop rule simulate walked (summary, skip_pathes) s = Some (Inr final, s')"
      by simp
    from Cons.IH [OF this] show ?thesis by (auto split: if_splits)
  next
    case False
    with Cons.prems obtain summary1 skip1 s1 where
      p: "process_resource rule simulate res (summary, skip_pathes) s = Some (Inr (summary1, skip1), s1)"
      and w: "walk_loop rule simulate walked (summary1, skip1) s1 = Some (Inr final, s')"
      by (auto split: option.splits prod.splits sum.splits)
    from process_resource_cases [OF p] Cons.IH [OF w] show ?thesis
      by (auto simp: algebra_simps split: if_splits)
  qed
qed

text \<open>
  Claim C6 as stated fails. A rule with one group filter, run over one resource: the
  group branch counts a success, then the flat branch runs as well (the flat filter
  list is empty, so mode \<open>all\<close> yields true, and \<open>self.actions\<close> is not empty) and
  counts a second success for the same resource.
\<close>

theorem counted_twice_per_resource:
  "map_option fst (execute counted_twice_rule False 0 [some_resource ''p''] empty_state)
     = Some (Inr \<lparr>success = 2, errors = 0\<rparr>)"
  by code_simp

text \<open>
  Claim C6, amended. In normal mode each branch of the loop body counts at most once
  per resource, whatever the number of actions: a pass adds at most one to
  \<open>success + errors\<close> for a rule without group filters and at most two for a rule with
  group filters, and the returned summary is bounded by that number times the number
  of resources walked.
\<close>

theorem tally_bounded_per_branch:
  "(map_option fst (process_resource rule simulate res (summary, skip_pathes) s)
        = Some (Inr (summary', skip_pathes')) \<longrightarrow>
      success summary \<le> success summary' \<and> errors summary \<le> errors summary' \<and>
      success summary' + errors summary' \<le> success summary + errors summary
         + (if group_filters rule = [] then 1 else 2))
   \<and> (locations rule \<noteq> [] \<and> map_option fst (execute rule simulate n walked s) = Some (Inr final) \<longrightarrow>
      0 \<le> success final \<and> 0 \<le> errors final \<and>
      success final + errors final \<le> (if group_filters rule = [] then 1 else 2) * int (length walked))"
proof (rule conjI; rule impI)
  assume "map_option fst (process_resource rule simulate res (summary, skip_pathes) s)
        = Some (Inr (summary', skip_pathes'))"
  then obtain s' where
    "process_resource rule simulate res (summary, skip_pathes) s = Some (Inr (summary', skip_pathes'), s')"
    by auto
  from process_resource_cases [OF this]
  show "success summary \<le> success summary' \<and> errors summary \<le> errors summary' \<and>
      success summary' + errors summary' \<le> success summary + errors summary
         + (if group_filters rule = [] then 1 else 2)"
    by simp
next
  assume a: "locations rule \<noteq> [] \<and> map_option fst (execute rule simulate n walked s) = Some (Inr final)"
  then obtain s' where e: "execute rule simulate n walked s = Some (Inr final, s')" by auto
  show "0 \<le> success final \<and> 0 \<le> errors final \<and>
      success final + errors final \<le> (if group_filters rule = [] then 1 else 2) * int (length walked)"
  proof (cases "enabled rule")
    case False
    with e show ?thesis by (auto simp: execute_def ReportSummary_def)
  next
    case True
    with e a have "walk_loop rule simulate walked (ReportSummary, {}) s = Some (Inr final, s')"
      by (simp add: execute_def)
    from walk_loop_bound [OF this] show ?thesis by (simp add: ReportSummary_def)
  qed
qed

theorem tally_bounded_per_branch_witness:
  "map_option fst (execute counted_twice_rule False 0 [some_resource ''p''] empty_state)
       = Some (Inr \<lparr>success = 2, errors = 0\<rparr>)
   \<and> locations counted_twice_rule \<noteq> []
   \<and> success \<lparr>success = 2, errors = 0\<rparr> + errors \<lparr>success = 2, errors = 0\<rparr>
       \<le> (if group_filters counted_twice_rule = [] then 1 else 2) * int (length [some_resource ''p''])"
proof -
  have e: "map_option fst (execute counted_twice_rule False 0 [some_resource ''p''] empty_state)
       = Some (Inr \<lparr>success = 2, errors = 0\<rparr>)"
    by code_simp
  have l: "locations counted_twice_rule \<noteq> []"
    by (simp add: counted_twice_rule_def sample_rule_def)
  from tally_bounded_per_branch [where rule = counted_twice_rule and simulate = False and n = 0
      and walked = "[some_resource ''p'']" and s = empty_state and final = "\<lparr>success = 2, errors = 0\<rparr>"] e l
  show ?thesis by blast
qed

section \<open>Failing action pipelines and the skip set\<close>

text \<open>
  Claim C10 as stated fails. The group branch of a resource fails after one of its
  actions recorded the path \<open>q\<close>; the flat branch of the same resource then ends
  normally and merges the resource's \<open>walker_skip_pathes\<close>, so the skip set grows by
  \<open>q\<close> and the later resource \<open>q\<close> is skipped.
\<close>

theorem failing_group_run_still_feeds_skip_pathes:
  "map_option fst (group_branch leaking_rule False (ReportSummary, {}) (some_resource ''p'', empty_state))
     = Some (Inr (\<lparr>success = 0, errors = 1\<rparr>, {}))
   \<and> map_option fst (process_resource leaking_rule False (some_resource ''p'') (ReportSummary, {}) empty_state)
     = Some (Inr (\<lparr>success = 1, errors = 1\<rparr>, {''q''}))
   \<and> map_option (\<lambda>x. (fst x, trace (snd x)))
        (execute leaking_rule False 0 [some_resource ''p'', some_resource ''q''] empty_state)
     = Some (Inr \<lparr>success = 1, errors = 1\<rparr>,
         [GroupFilterCall ''G'', FilterCall ''G'', GroupActionCall ''G'', ActionCall ''s'', ActionCall ''b''])"
  by code_simp

text \<open>
  Claim C10, amended. When an action pipeline raises an exception (which is never
  \<open>StopIteration\<close>), the branch that ran it counts an error and leaves the skip set as
  it was: the merge is on the success path of each branch only. The skip set after a
  resource equals the one before whenever that resource added no success.
\<close>

theorem failing_pipeline_keeps_skip_pathes:
  "(action_pipeline pl acts simulate c = (Some (e, a), c') \<longrightarrow>
      e \<noteq> StopIteration \<and>
      fst (try_actions pl nm acts simulate (summary, skip_pathes) c)
        = (summary\<lparr>errors := errors summary + 1\<rparr>, skip_pathes))
   \<and> (map_option fst (process_resource rule simulate res (summary, skip_pathes) s)
        = Some (Inr (summary', skip_pathes')) \<and> success summary' = success summary \<longrightarrow>
      skip_pathes' = skip_pathes)"
proof (rule conjI; rule impI)
  assume a: "action_pipeline pl acts simulate c = (Some (e, a), c')"
  from action_pipeline_never_stop [OF a] a
  show "e \<noteq> StopIteration \<and>
      fst (try_actions pl nm acts simulate (summary, skip_pathes) c)
        = (summary\<lparr>errors := errors summary + 1\<rparr>, skip_pathes)"
    by (cases c') (simp add: try_actions_def)
next
  assume a: "map_option fst (process_resource rule simulate res (summary, skip_pathes) s)
        = Some (Inr (summary', skip_pathes')) \<and> success summary' = success summary"
  then obtain s' where
    "process_resource rule simulate res (summary, skip_pathes) s = Some (Inr (summary', skip_pathes'), s')"
    by auto
  from process_resource_cases [OF this] a show "skip_pathes' = skip_pathes" by simp
qed

theorem failing_pipeline_keeps_skip_pathes_witness:
  "action_pipeline call_action [skip_action ''s'' ''q'', raising_action ''b'' (OtherError ''boom'')] False
       (some_resource ''p'', empty_state)
     = (Some (OtherError ''boom'', raising_action ''b'' (OtherError ''boom'')),
        ((some_resource ''p'')\<lparr>walker_skip_pathes := {''q''}\<rparr>,
         \<lparr>world = (), sink = [], trace = [ActionCall ''s'', ActionCall ''b'']\<rparr>))
   \<and> fst (try_actions call_action (\<lambda>a. ac_name (action_config a))
          [skip_action ''s'' ''q'', raising_action ''b'' (OtherError ''boom'')] False (ReportSummary, {})
          (some_resource ''p'', empty_state))
     = (ReportSummary\<lparr>errors := errors ReportSummary + 1\<rparr>, {})
   \<and> map_option fst (process_resource flat_failing_rule False (some_resource ''p'') (ReportSummary, {}) empty_state)
     = Some (Inr (\<lparr>success = 0, errors = 1\<rparr>, {}))"
proof -
  have a: "action_pipeline call_action [skip_action ''s'' ''q'', raising_action ''b'' (OtherError ''boom'')] False
       (some_resource ''p'', empty_state)
     = (Some (OtherError ''boom'', raising_action ''b'' (OtherError ''boom'')),
        ((some_resource ''p'')\<lparr>walker_skip_pathes := {''q''}\<rparr>,
         \<lparr>world = (), sink = [], trace = [ActionCall ''s'', ActionCall ''b'']\<rparr>))"
    by (simp add: call_action_def skip_action_def raising_action_def some_resource_def empty_state_def
        log_call_def)
  have p: "map_option fst (process_resource flat_failing_rule False (some_resource ''p'') (ReportSummary, {}) empty_state)
     = Some (Inr (\<lparr>success = 0, errors = 1\<rparr>, {}))"
    by code_simp
  from failing_pipeline_keeps_skip_pathes [where pl = call_action
      and acts = "[skip_action ''s'' ''q'', raising_action ''b'' (OtherError ''boom'')]"
      and simulate = False and c = "(some_resource ''p'', empty_state)" and e = "OtherError ''boom''"
      and a = "raising_action ''b'' (OtherError ''boom'')"
      and c' = "((some_resource ''p'')\<lparr>walker_skip_pathes := {''q''}\<rparr>,
         \<lparr>world = (), sink = [], trace = [ActionCall ''s'', ActionCall ''b'']\<rparr>)"
      and nm = "\<lambda>a. ac_name (action_config a)" and summary = ReportSummary and skip_pathes = "{}"
      and rule = flat_failing_rule and res = "some_resource ''p''" and s = empty_state
      and summary' = "\<lparr>success = 0, errors = 1\<rparr>" and skip_pathes' = "{}"] a p
  show ?thesis by simp
qed

section \<open>Dictionaries\<close>

lemma map_of_dict_set: "map_of (dict_set d k v) = (map_of d)(k \<mapsto> v)"
  by (induction d) (auto simp: fun_eq_iff)

lemma keys_dict_set: "k \<in> fst ` set d \<Longrightarrow> map fst (dict_set d k v) = map fst d"
  by (induction d) force+

lemma keys_dict_set_new: "k \<notin> fst ` set d \<Longrightarrow> map fst (dict_set d k v) = map fst d @ [k]"
  by (induction d) auto

lemma set_dict_set: "set (dict_set d k v) \<subseteq> insert (k, v) (set d)"
  by (induction d) (auto split: if_splits)

lemma map_of_keys: "map fst d = ks \<Longrightarrow> k \<in> set ks \<Longrightarrow> \<exists>v. map_of d k = Some v"
  by (metis list.set_map map_of_eq_None_iff not_Some_eq)

lemma map_of_not_key: "map fst d = ks \<Longrightarrow> k \<notin> set ks \<Longrightarrow> map_of d k = None"
  by (metis list.set_map map_of_eq_None_iff)

lemma well_keyed_dict_set:
  assumes "well_keyed d"
  shows "well_keyed (dict_set d (name g) g)"
proof (cases "name g \<in> fst ` set d")
  case True
  with assms keys_dict_set [OF True, of g] set_dict_set [of d "name g" g] show ?thesis
    by (fastforce simp: well_keyed_def)
next
  case False
  with assms keys_dict_set_new [OF False, of g] set_dict_set [of d "name g" g] show ?thesis
    by (fastforce simp: well_keyed_def)
qed

lemma foldl_dict_set:
  assumes "well_keyed d" and "snd ` set d \<subseteq> G"  and "set gs \<subseteq> G"
  shows "well_keyed (foldl (\<lambda>d node. dict_set d (name node) node) d gs)
       \<and> fst ` set (foldl (\<lambda>d node. dict_set d (name node) node) d gs) = fst ` set d \<union> name ` set gs
       \<and> snd ` set (foldl (\<lambda>d node. dict_set d (name node) node) d gs) \<subseteq> G"
  using assms
proof (induction gs arbitrary: d)
  case Nil
  then show ?case by simp
next
  case (Cons g gs)
  have wk: "well_keyed (dict_set d (name g) g)" using Cons.prems(1) by (rule well_keyed_dict_set)
  have sub: "snd ` set (dict_set d (name g) g) \<subseteq> G"
    using set_dict_set [of d "name g" g] Cons.prems(2,3) by fastforce
  have keys: "fst ` set (dict_set d (name g) g) = insert (name g) (fst ` set d)"
  proof (cases "name g \<in> fst ` set d")
    case True
    from keys_dict_set [OF True, of g] have "set (map fst (dict_set d (name g) g)) = set (map fst d)"
      by simp
    with True show ?thesis by auto
  next
    case False
    from keys_dict_set_new [OF False, of g]
    have "set (map fst (dict_set d (name g) g)) = set (map fst d @ [name g])" by simp
    then show ?thesis by auto
  qed
  from Cons.IH [OF wk sub] Cons.prems(3) keys show ?case by auto
qed

lemma nodes_of_well_keyed: "well_keyed (nodes_of gs)"
  using foldl_dict_set [of "[]" "set gs" gs] by (simp add: nodes_of_def well_keyed_def)

lemma nodes_of_keys: "fst ` set (nodes_of gs) = name ` set gs"
  using foldl_dict_set [of "[]" "set gs" gs] by (simp add: nodes_of_def well_keyed_def)

lemma nodes_of_values: "snd ` set (nodes_of gs) \<subseteq> set gs"
  using foldl_dict_set [of "[]" "set gs" gs] by (simp add: nodes_of_def well_keyed_def)

section \<open>The graph that \<open>is_cyclic\<close> and \<open>match\<close> build\<close>

lemma add_deps_spec:
  assumes "map fst deg = ks" and "map fst ch = ks" and "n \<in> set ks" and "distinct deps"
  shows "\<exists>deg' ch'. add_deps ks n deps (deg, ch) = Inr (deg', ch')
     \<and> map fst deg' = ks \<and> map fst ch' = ks
     \<and> map_of deg' = (map_of deg)(n \<mapsto> the (map_of deg n) + int (card (set deps \<inter> set ks)))
     \<and> (\<forall>p. map_of ch' p = (if p \<in> set deps \<and> p \<in> set ks
                               then map_option (\<lambda>cs. cs @ [n]) (map_of ch p) else map_of ch p))"
  using assms
proof (induction deps arbitrary: deg ch)
  case Nil
  from map_of_keys [OF Nil(1,3)] obtain d where "map_of deg n = Some d" by blast
  then show ?case using Nil by (auto simp: fun_eq_iff)
next
  case (Cons dep deps)
  show ?case
  proof (cases "dep \<in> set ks")
    case False
    from Cons.prems have "distinct deps" by simp
    from Cons.IH [OF Cons.prems(1,2,3) this] obtain deg' ch' where
      r: "add_deps ks n deps (deg, ch) = Inr (deg', ch')" "map fst deg' = ks" "map fst ch' = ks"
      "map_of deg' = (map_of deg)(n \<mapsto> the (map_of deg n) + int (card (set deps \<inter> set ks)))"
      "\<forall>p. map_of ch' p = (if p \<in> set deps \<and> p \<in> set ks
                               then map_option (\<lambda>cs. cs @ [n]) (map_of ch p) else map_of ch p)"
      by blast
    have "set (dep # deps) \<inter> set ks = set deps \<inter> set ks" using False by auto
    with r False show ?thesis by auto
  next
    case True
    from map_of_keys [OF Cons.prems(1,3)] obtain d where d: "map_of deg n = Some d" by blast
    from map_of_keys [OF Cons.prems(2) True] obtain cs where cs: "map_of ch dep = Some cs" by blast
    let ?deg1 = "dict_set deg n (d + 1)" and ?ch1 = "dict_set ch dep (cs @ [n])"
    have k1: "map fst ?deg1 = ks" using keys_dict_set [of n deg "d + 1"] Cons.prems(1,3) by auto
    have k2: "map fst ?ch1 = ks" using keys_dict_set [of dep ch "cs @ [n]"] Cons.prems(2) True by auto
    from Cons.prems have dd: "distinct deps" and notin: "dep \<notin> set deps" by simp_all
    from Cons.IH [OF k1 k2 Cons.prems(3) dd] obtain deg' ch' where
      r: "add_deps ks n deps (?deg1, ?ch1) = Inr (deg', ch')" "map fst deg' = ks" "map fst ch' = ks"
      "map_of deg' = (map_of ?deg1)(n \<mapsto> the (map_of ?deg1 n) + int (card (set deps \<inter> set ks)))"
      "\<forall>p. map_of ch' p = (if p \<in> set deps \<and> p \<in> set ks
                               then map_option (\<lambda>cs. cs @ [n]) (map_of ?ch1 p) else map_of ?ch1 p)"
      by blast
    have step: "add_deps ks n (dep # deps) (deg, ch) = Inr (deg', ch')"
      using True d cs r(1) by (simp add: dict_get_def)
    have "set (dep # deps) \<inter> set ks = insert dep (set deps \<inter> set ks)" using True by auto
    moreover have "dep \<notin> set deps \<inter> set ks" using notin by simp
    ultimately have card: "card (set (dep # deps) \<inter> set ks) = Suc (card (set deps \<inter> set ks))"
      by (simp add: card_insert_if)
    have degs: "map_of deg' = (map_of deg)(n \<mapsto> the (map_of deg n) + int (card (set (dep # deps) \<inter> set ks)))"
      unfolding r(4) card using d by (auto simp: map_of_dict_set fun_eq_iff)
    have chs: "map_of ch' p = (if p \<in> set (dep # deps) \<and> p \<in> set ks
                               then map_option (\<lambda>cs. cs @ [n]) (map_of ch p) else map_of ch p)" for p
      using r(5) notin cs True by (auto simp: map_of_dict_set)
    from step r(2,3) degs chs show ?thesis by blast
  qed
qed

lemma add_edges_spec:
  assumes "map fst deg = ks" and "map fst ch = ks" and "distinct (map name gl)"
    and "name ` set gl \<subseteq> set ks"
  shows "\<exists>deg' ch'. add_edges ks gl (deg, ch) = Inr (deg', ch')
     \<and> map fst deg' = ks \<and> map fst ch' = ks
     \<and> (\<forall>n. map_of deg' n =
           (case find (\<lambda>g. name g = n) gl of
              None \<Rightarrow> map_of deg n
            | Some g \<Rightarrow> map_option (\<lambda>d. d + int (card (set (depend_on g) \<inter> set ks))) (map_of deg n)))
     \<and> (\<forall>p. map_of ch' p =
           map_option (\<lambda>cs. cs @ map name (filter (\<lambda>g. p \<in> set (depend_on g) \<and> p \<in> set ks) gl))
             (map_of ch p))"
  using assms
proof (induction gl arbitrary: deg ch)
  case Nil
  then show ?case by (auto simp: option.map_ident)
next
  case (Cons g gl)
  from Cons.prems have gk: "name g \<in> set ks" by simp
  from add_deps_spec [OF Cons.prems(1,2) gk, of "remdups (depend_on g)"] obtain deg1 ch1 where
    a: "add_deps ks (name g) (remdups (depend_on g)) (deg, ch) = Inr (deg1, ch1)"
    and k1: "map fst deg1 = ks" and k2: "map fst ch1 = ks"
    and d1: "map_of deg1 = (map_of deg)(name g \<mapsto> the (map_of deg (name g))
               + int (card (set (depend_on g) \<inter> set ks)))"
    and c1: "\<forall>p. map_of ch1 p = (if p \<in> set (depend_on g) \<and> p \<in> set ks
                               then map_option (\<lambda>cs. cs @ [name g]) (map_of ch p) else map_of ch p)"
    by auto
  from Cons.prems have dl: "distinct (map name gl)" and sub: "name ` set gl \<subseteq> set ks"
    and fresh: "name g \<notin> name ` set gl" by auto
  from Cons.IH [OF k1 k2 dl sub] obtain deg' ch' where
    r: "add_edges ks gl (deg1, ch1) = Inr (deg', ch')" "map fst deg' = ks" "map fst ch' = ks"
    and d2: "\<forall>n. map_of deg' n =
           (case find (\<lambda>g. name g = n) gl of
              None \<Rightarrow> map_of deg1 n
            | Some g \<Rightarrow> map_option (\<lambda>d. d + int (card (set (depend_on g) \<inter> set ks))) (map_of deg1 n))"
    and c2: "\<forall>p. map_of ch' p =
           map_option (\<lambda>cs. cs @ map name (filter (\<lambda>g. p \<in> set (depend_on g) \<and> p \<in> set ks) gl))
             (map_of ch1 p)"
    by blast
  have step: "add_edges ks (g # gl) (deg, ch) = Inr (deg', ch')" using a r(1) by simp
  from map_of_keys [OF Cons.prems(1) gk] obtain d where d: "map_of deg (name g) = Some d" by blast
  have nf: "find (\<lambda>h. name h = name g) gl = None"
    using fresh by (force simp: find_None_iff image_iff)
  have degs: "map_of deg' n =
           (case find (\<lambda>h. name h = n) (g # gl) of
              None \<Rightarrow> map_of deg n
            | Some h \<Rightarrow> map_option (\<lambda>d. d + int (card (set (depend_on h) \<inter> set ks))) (map_of deg n))" for n
  proof (cases "name g = n")
    case True
    with d2 d1 d nf show ?thesis by auto
  next
    case False
    with d2 d1 show ?thesis by (auto split: option.splits)
  qed
  have chs: "map_of ch' p =
           map_option (\<lambda>cs. cs @ map name (filter (\<lambda>g. p \<in> set (depend_on g) \<and> p \<in> set ks) (g # gl)))
             (map_of ch p)" for p
    using c2 c1 by (cases "map_of ch p") auto
  from step r(2,3) degs chs show ?case by blast
qed

lemma parents_subset: "parents nodes n \<subseteq> fst ` set nodes"
  by (auto simp: parents_def split: option.splits)

lemma parents_finite: "finite (parents nodes n)"
  by (rule finite_subset [OF parents_subset]) simp

lemma parents_child_known: "p \<in> parents nodes n \<Longrightarrow> n \<in> fst ` set nodes"
  by (auto simp: parents_def split: option.splits dest: map_of_SomeD intro: rev_image_eqI)

lemma find_map_snd:
  assumes "well_keyed nodes"
  shows "find (\<lambda>g. name g = n) (map snd nodes) = map_of nodes n"
  using assms
proof (induction nodes)
  case Nil
  then show ?case by simp
next
  case (Cons kv nodes)
  then have "well_keyed nodes" and "name (snd kv) = fst kv" by (auto simp: well_keyed_def)
  with Cons.IH show ?case by (cases kv) auto
qed

lemma map_name_values:
  assumes "well_keyed nodes"
  shows "map name (map snd nodes) = map fst nodes"
  using assms by (induction nodes) (auto simp: well_keyed_def)

lemma build_graph_spec:
  assumes wk: "well_keyed nodes"
  shows "\<exists>deg ch. build_graph nodes = Inr (deg, ch) \<and> built nodes deg ch"
proof -
  let ?ks = "map fst nodes"
  let ?deg0 = "map (\<lambda>kv. (fst kv, 0::int)) nodes" and ?ch0 = "map (\<lambda>kv. (fst kv, []::string list)) nodes"
  have k1: "map fst ?deg0 = ?ks" and k2: "map fst ?ch0 = ?ks" by simp_all
  have names: "map name (map snd nodes) = ?ks" using wk by (rule map_name_values)
  have dn: "distinct (map name (map snd nodes))" unfolding names using wk by (simp add: well_keyed_def)
  have sub: "name ` set (map snd nodes) \<subseteq> set ?ks" using names by (metis list.set_map order_refl)
  from add_edges_spec [OF k1 k2 dn sub] obtain deg ch where
    r: "add_edges ?ks (map snd nodes) (?deg0, ?ch0) = Inr (deg, ch)"
    and kd: "map fst deg = ?ks" and kc: "map fst ch = ?ks"
    and d: "\<forall>n. map_of deg n =
           (case find (\<lambda>g. name g = n) (map snd nodes) of
              None \<Rightarrow> map_of ?deg0 n
            | Some g \<Rightarrow> map_option (\<lambda>d. d + int (card (set (depend_on g) \<inter> set ?ks))) (map_of ?deg0 n))"
    and c: "\<forall>p. map_of ch p =
           map_option (\<lambda>cs. cs @ map name (filter (\<lambda>g. p \<in> set (depend_on g) \<and> p \<in> set ?ks) (map snd nodes)))
             (map_of ?ch0 p)"
    by blast
  have bg: "build_graph nodes = Inr (deg, ch)" using r by (simp add: build_graph_def)
  have zero: "map_of ?deg0 n = Some 0" if "n \<in> fst ` set nodes" for n
    using that by (induction nodes) auto
  have nil: "map_of ?ch0 n = Some []" if "n \<in> fst ` set nodes" for n
    using that by (induction nodes) auto
  have degs: "map_of deg n = Some (int (card (parents nodes n)))" if n: "n \<in> fst ` set nodes" for n
  proof -
    from n obtain g where g: "map_of nodes n = Some g"
      by (metis map_of_eq_None_iff not_Some_eq)
    with d zero [OF n] find_map_snd [OF wk, of n] show ?thesis
      by (simp add: parents_def)
  qed
  have chs: "\<exists>cs. map_of ch p = Some cs \<and> distinct cs \<and> set cs = {n. p \<in> parents nodes n}"
    if p: "p \<in> fst ` set nodes" for p
  proof -
    let ?cs = "map name (filter (\<lambda>g. p \<in> set (depend_on g) \<and> p \<in> set ?ks) (map snd nodes))"
    have m: "map_of ch p = Some ?cs" using c nil [OF p] by simp
    have dist: "distinct ?cs" using dn by (rule distinct_map_filter)
    have "set ?cs = {n. p \<in> parents nodes n}"
    proof (rule set_eqI, rule iffI)
      fix n assume "n \<in> set ?cs"
      then obtain k g where kg: "(k, g) \<in> set nodes" "n = name g" "p \<in> set (depend_on g)"
        by auto
      with wk have "k = n" by (auto simp: well_keyed_def)
      with kg wk have "map_of nodes n = Some g" by (simp add: well_keyed_def)
      with kg p show "n \<in> {n. p \<in> parents nodes n}" by (simp add: parents_def)
    next
      fix n assume "n \<in> {n. p \<in> parents nodes n}"
      then obtain g where g: "map_of nodes n = Some g" "p \<in> set (depend_on g)"
        by (auto simp: parents_def split: option.splits)
      then have in_nodes: "(n, g) \<in> set nodes" by (auto dest: map_of_SomeD)
      with wk have "name g = n" by (auto simp: well_keyed_def)
      with in_nodes g p show "n \<in> set ?cs" by force
    qed
    with m dist show ?thesis by blast
  qed
  from bg kd kc degs chs show ?thesis unfolding built_def by blast
qed

section \<open>Kahn's algorithm\<close>

lemma kahn_children_spec:
  assumes "map fst deg = ks" and "set cs \<subseteq> set ks" and "distinct cs"
  shows "\<exists>deg'. kahn_children cs (deg, q) = Inr (deg', q @ filter (\<lambda>n. map_of deg n = Some 1) cs)
     \<and> map fst deg' = ks
     \<and> (\<forall>n. map_of deg' n = (if n \<in> set cs then map_option (\<lambda>d. d - 1) (map_of deg n) else map_of deg n))"
  using assms
proof (induction cs arbitrary: deg q)
  case Nil
  then show ?case by simp
next
  case (Cons child cs)
  from Cons.prems have ck: "child \<in> set ks" and sub: "set cs \<subseteq> set ks"
    and dc: "distinct cs" and notin: "child \<notin> set cs" by auto
  from map_of_keys [OF Cons.prems(1) ck] obtain d where d: "map_of deg child = Some d" by blast
  let ?deg1 = "dict_set deg child (d - 1)"
  let ?q1 = "if d - 1 = 0 then q @ [child] else q"
  have k1: "map fst ?deg1 = ks" using keys_dict_set [of child deg "d - 1"] Cons.prems(1) ck by auto
  from Cons.IH [OF k1 sub dc, of ?q1] obtain deg' where
    r: "kahn_children cs (?deg1, ?q1) = Inr (deg', ?q1 @ filter (\<lambda>n. map_of ?deg1 n = Some 1) cs)"
    and k: "map fst deg' = ks"
    and m: "\<forall>n. map_of deg' n = (if n \<in> set cs then map_option (\<lambda>d. d - 1) (map_of ?deg1 n) else map_of ?deg1 n)"
    by blast
  have same: "filter (\<lambda>n. map_of ?deg1 n = Some 1) cs = filter (\<lambda>n. map_of deg n = Some 1) cs"
    using notin by (intro filter_cong) (auto simp: map_of_dict_set)
  have q: "?q1 @ filter (\<lambda>n. map_of deg n = Some 1) cs
      = q @ filter (\<lambda>n. map_of deg n = Some 1) (child # cs)"
    using d by auto
  have step: "kahn_children (child # cs) (deg, q) =
      Inr (deg', q @ filter (\<lambda>n. map_of deg n = Some 1) (child # cs))"
    using d r same q by (simp add: dict_get_def)
  have vals: "map_of deg' n = (if n \<in> set (child # cs) then map_option (\<lambda>d. d - 1) (map_of deg n)
      else map_of deg n)" for n
    using m notin d by (auto simp: map_of_dict_set)
  from step k vals show ?case by blast
qed

text \<open>One pass of the \<open>while queue\<close> loop, on sets.\<close>

lemma card_one_iff_singleton:
  assumes "finite A" and "x \<in> A"
  shows "card A = 1 \<longleftrightarrow> A = {x}"
  using assms by (metis card_1_singletonE is_singletonI is_singleton_altdef singletonD)

lemma kahn_step_sets:
  fixes P :: "string \<Rightarrow> string set"
  assumes fin: "\<And>n. finite (P n)"
    and dq: "distinct (current # rest)" and qk: "set (current # rest) \<subseteq> K"
    and disj: "set (current # rest) \<inter> D = {}"
    and iff: "\<forall>n\<in>K. n \<in> D \<union> set (current # rest) \<longleftrightarrow> P n \<subseteq> D"
    and dcs: "distinct cs" and cs: "set cs = {n. current \<in> P n}" and csk: "set cs \<subseteq> K"
  shows "distinct (rest @ filter (\<lambda>n. card (P n - D) = 1) cs)"
    and "set (rest @ filter (\<lambda>n. card (P n - D) = 1) cs) \<subseteq> K"
    and "set (rest @ filter (\<lambda>n. card (P n - D) = 1) cs) \<inter> insert current D = {}"
    and "\<forall>n\<in>K. n \<in> insert current D \<union> set (rest @ filter (\<lambda>n. card (P n - D) = 1) cs)
            \<longleftrightarrow> P n \<subseteq> insert current D"
proof -
  have cur: "current \<notin> D" "current \<in> K" "current \<notin> set rest" using dq qk disj by auto
  have fresh: "n \<notin> D \<union> set (current # rest)" if "n \<in> set cs" for n
  proof
    assume "n \<in> D \<union> set (current # rest)"
    moreover have "n \<in> K" using that csk by auto
    ultimately have "P n \<subseteq> D" using iff by blast
    moreover have "current \<in> P n" using that cs by auto
    ultimately show False using cur by auto
  qed
  show "distinct (rest @ filter (\<lambda>n. card (P n - D) = 1) cs)"
    using dq dcs fresh by auto
  show "set (rest @ filter (\<lambda>n. card (P n - D) = 1) cs) \<subseteq> K"
    using qk csk by auto
  show "set (rest @ filter (\<lambda>n. card (P n - D) = 1) cs) \<inter> insert current D = {}"
    using disj cur fresh by auto
  show "\<forall>n\<in>K. n \<in> insert current D \<union> set (rest @ filter (\<lambda>n. card (P n - D) = 1) cs)
            \<longleftrightarrow> P n \<subseteq> insert current D"
  proof
    fix n assume nk: "n \<in> K"
    show "n \<in> insert current D \<union> set (rest @ filter (\<lambda>n. card (P n - D) = 1) cs)
            \<longleftrightarrow> P n \<subseteq> insert current D"
    proof (cases "n \<in> D \<union> set (current # rest)")
      case True
      with iff nk have "P n \<subseteq> D" by blast
      with True show ?thesis by auto
    next
      case False
      with iff nk have notsub: "\<not> P n \<subseteq> D" by blast
      have "n \<in> set (filter (\<lambda>n. card (P n - D) = 1) cs) \<longleftrightarrow> P n \<subseteq> insert current D"
      proof
        assume "n \<in> set (filter (\<lambda>n. card (P n - D) = 1) cs)"
        then have c: "current \<in> P n" and one: "card (P n - D) = 1" using cs by auto
        have "current \<in> P n - D" using c cur by simp
        with one fin [of n] have "P n - D = {current}"
          using card_one_iff_singleton [of "P n - D" current] by simp
        then show "P n \<subseteq> insert current D" by auto
      next
        assume sub: "P n \<subseteq> insert current D"
        with notsub have c: "current \<in> P n" by auto
        with sub cur have "P n - D = {current}" by auto
        then have "card (P n - D) = 1" by simp
        with c cs show "n \<in> set (filter (\<lambda>n. card (P n - D) = 1) cs)" by auto
      qed
      with False show ?thesis by auto
    qed
  qed
qed

lemma on_cycle_parent:
  assumes "n \<in> on_cycle nodes"
  shows "\<exists>p \<in> parents nodes n. p \<in> on_cycle nodes"
proof -
  from assms have "(n, n) \<in> (edges_of nodes)\<^sup>+" by (simp add: on_cycle_def)
  then obtain p where np: "(n, p) \<in> (edges_of nodes)\<^sup>*" and pn: "(p, n) \<in> edges_of nodes"
    by (meson tranclD2)
  from pn np have "(p, p) \<in> (edges_of nodes)\<^sup>+" by (rule rtrancl_into_trancl2)
  with pn show ?thesis by (auto simp: on_cycle_def edges_of_def)
qed

lemma kahn_loop_spec:
  fixes nodes :: "(string, ('v, 'w) group_filter) dict"
  assumes ch: "\<forall>p \<in> fst ` set nodes. \<exists>cs. map_of ch p = Some cs \<and> distinct cs
                  \<and> set cs = {n. p \<in> parents nodes n}"
    and keys: "map fst deg = map fst nodes"
    and dq: "distinct queue" and qk: "set queue \<subseteq> fst ` set nodes" and dk: "D \<subseteq> fst ` set nodes"
    and disj: "set queue \<inter> D = {}"
    and degs: "\<forall>n \<in> fst ` set nodes. map_of deg n = Some (int (card (parents nodes n - D)))"
    and iff: "\<forall>n \<in> fst ` set nodes. n \<in> D \<union> set queue \<longleftrightarrow> parents nodes n \<subseteq> D"
    and cyc: "(D \<union> set queue) \<inter> on_cycle nodes = {}"
  shows "\<exists>D'. kahn_loop ch deg queue (card D) = Inr (card D') \<and> D' \<subseteq> fst ` set nodes
     \<and> (\<forall>n \<in> fst ` set nodes. n \<in> D' \<longleftrightarrow> parents nodes n \<subseteq> D')
     \<and> D' \<inter> on_cycle nodes = {}"
  using keys dq qk dk disj degs iff cyc
proof (induction "card (fst ` set nodes - D)" arbitrary: deg queue D rule: less_induct)
  case less
  let ?K = "fst ` set nodes"
  let ?P = "parents nodes"
  have finK: "finite ?K" by simp
  have finD: "finite D" using less.prems(4) finK by (rule finite_subset)
  show ?case
  proof (cases queue)
    case Nil
    with less.prems show ?thesis by (subst kahn_loop.simps) auto
  next
    case (Cons current rest)
    have cur: "current \<in> ?K" "current \<notin> D" "current \<notin> set rest"
      using less.prems(2,3,5) Cons by auto
    from ch cur(1) obtain cs where cs: "map_of ch current = Some cs" "distinct cs"
      "set cs = {n. current \<in> ?P n}" by blast
    have csk: "set cs \<subseteq> ?K" using cs(3) parents_child_known by blast
    have csk': "set cs \<subseteq> set (map fst nodes)" using csk by simp
    from kahn_children_spec [OF less.prems(1) csk' cs(2), of rest] obtain deg' where
      kc: "kahn_children cs (deg, rest) = Inr (deg', rest @ filter (\<lambda>n. map_of deg n = Some 1) cs)"
      and k': "map fst deg' = map fst nodes"
      and vals: "\<forall>n. map_of deg' n = (if n \<in> set cs then map_option (\<lambda>d. d - 1) (map_of deg n)
                    else map_of deg n)"
      by blast
    let ?new = "filter (\<lambda>n. card (?P n - D) = 1) cs"
    have same: "filter (\<lambda>n. map_of deg n = Some 1) cs = ?new"
    proof (rule filter_cong [OF refl])
      fix n assume "n \<in> set cs"
      then have "n \<in> ?K" using csk by blast
      with less.prems(6) have "map_of deg n = Some (int (card (?P n - D)))" by blast
      then show "(map_of deg n = Some 1) = (card (?P n - D) = 1)" by simp
    qed
    let ?D' = "insert current D" and ?q' = "rest @ ?new"
    have unfold: "kahn_loop ch deg queue (card D) = kahn_loop ch deg' ?q' (card ?D')"
      using Cons cs(1) kc same finD cur(2) by (subst kahn_loop.simps) (simp add: dict_get_def)
    note sets = kahn_step_sets [of ?P current rest ?K D cs, OF parents_finite
        less.prems(2) [unfolded Cons] less.prems(3) [unfolded Cons] less.prems(5) [unfolded Cons]
        less.prems(7) [unfolded Cons] cs(2) cs(3) csk]
    have dk': "?D' \<subseteq> ?K" using less.prems(4) cur(1) by auto
    have degs': "\<forall>n \<in> ?K. map_of deg' n = Some (int (card (?P n - ?D')))"
    proof
      fix n assume nk: "n \<in> ?K"
      with less.prems(6) have old: "map_of deg n = Some (int (card (?P n - D)))" by blast
      show "map_of deg' n = Some (int (card (?P n - ?D')))"
      proof (cases "n \<in> set cs")
        case True
        then have "current \<in> ?P n - D" using cs(3) cur(2) by auto
        moreover have "finite (?P n - D)" using parents_finite by auto
        ultimately have "card (?P n - D - {current}) = card (?P n - D) - 1" "0 < card (?P n - D)"
          by (auto simp: card_gt_0_iff)
        moreover have "?P n - ?D' = ?P n - D - {current}" by auto
        ultimately have "int (card (?P n - ?D')) = int (card (?P n - D)) - 1" by simp
        with vals True old show ?thesis by simp
      next
        case False
        then have "current \<notin> ?P n" using cs(3) by auto
        then have "?P n - ?D' = ?P n - D" by auto
        with vals False old show ?thesis by simp
      qed
    qed
    have cyc': "(?D' \<union> set ?q') \<inter> on_cycle nodes = {}"
    proof -
      have old: "(?D' \<union> set rest) \<inter> on_cycle nodes = {}" using less.prems(8) Cons by auto
      have "n \<notin> on_cycle nodes" if n: "n \<in> set ?new" for n
      proof
        assume "n \<in> on_cycle nodes"
        from on_cycle_parent [OF this] obtain p where p: "p \<in> ?P n" "p \<in> on_cycle nodes" by blast
        have "n \<in> ?K" using n csk by auto
        with sets(4) n have "?P n \<subseteq> ?D'" by auto
        with p old show False by auto
      qed
      with old show ?thesis by auto
    qed
    have smaller: "card (?K - ?D') < card (?K - D)"
      using cur finK by (intro psubset_card_mono) auto
    from less.hyps [OF smaller k' sets(1) sets(2) dk' sets(3) degs' sets(4) cyc']
    obtain Df where "kahn_loop ch deg' ?q' (card ?D') = Inr (card Df)" "Df \<subseteq> ?K"
      "\<forall>n \<in> ?K. n \<in> Df \<longleftrightarrow> ?P n \<subseteq> Df" "Df \<inter> on_cycle nodes = {}"
      by blast
    with unfold show ?thesis by auto
  qed
qed

lemma edges_of_finite: "finite (edges_of nodes)"
proof -
  have "edges_of nodes \<subseteq> fst ` set nodes \<times> fst ` set nodes"
    using parents_subset parents_child_known by (fastforce simp: edges_of_def)
  then show ?thesis by (rule finite_subset) simp
qed

lemma acyclic_iff_on_cycle: "acyclic (edges_of nodes) \<longleftrightarrow> on_cycle nodes = {}"
  by (auto simp: acyclic_def on_cycle_def)

lemma zero_in_degree_spec:
  assumes "distinct (map fst deg)"
  shows "distinct (zero_in_degree deg) \<and> set (zero_in_degree deg) = {n. map_of deg n = Some 0}"
proof -
  have "distinct (zero_in_degree deg)"
    unfolding zero_in_degree_def using assms by (rule distinct_map_filter)
  moreover have "set (zero_in_degree deg) = {n. map_of deg n = Some 0}"
    using assms by (force simp: zero_in_degree_def dest: map_of_SomeD)
  ultimately show ?thesis by simp
qed

text \<open>Kahn's algorithm decides whether the graph has a cycle.\<close>

lemma is_cyclic_spec:
  fixes node_map :: "('v, 'w) group_filter list"
  shows "GroupFilter_is_cyclic node_map = Inr (\<not> acyclic (edges_of (nodes_of node_map)))"
proof -
  let ?nodes = "nodes_of node_map"
  let ?K = "fst ` set ?nodes" and ?P = "parents ?nodes"
  have wk: "well_keyed ?nodes" by (rule nodes_of_well_keyed)
  from build_graph_spec [OF wk] obtain deg ch where
    bg: "build_graph ?nodes = Inr (deg, ch)" and b: "built ?nodes deg ch" by blast
  from b have keys: "map fst deg = map fst ?nodes"
    and degs: "\<forall>n \<in> ?K. map_of deg n = Some (int (card (?P n)))"
    and ch: "\<forall>p \<in> ?K. \<exists>cs. map_of ch p = Some cs \<and> distinct cs \<and> set cs = {n. p \<in> ?P n}"
    by (auto simp: built_def)
  have dk: "distinct (map fst deg)" using wk keys by (simp add: well_keyed_def)
  from zero_in_degree_spec [OF dk] have dq: "distinct (zero_in_degree deg)"
    and sq: "set (zero_in_degree deg) = {n. map_of deg n = Some 0}" by simp_all
  have notkey: "map_of deg n = None" if "n \<notin> ?K" for n
    using map_of_not_key [OF keys, of n] that by simp
  have sq': "set (zero_in_degree deg) = {n \<in> ?K. ?P n = {}}"
  proof (rule set_eqI)
    fix n
    show "n \<in> set (zero_in_degree deg) \<longleftrightarrow> n \<in> {n \<in> ?K. ?P n = {}}"
    proof (cases "n \<in> ?K")
      case True
      with degs have "map_of deg n = Some (int (card (?P n)))" by blast
      with sq True parents_finite [of ?nodes n] show ?thesis by auto
    next
      case False
      with sq notkey show ?thesis by auto
    qed
  qed
  have qk: "set (zero_in_degree deg) \<subseteq> ?K" using sq' by auto
  have degs0: "\<forall>n \<in> ?K. map_of deg n = Some (int (card (?P n - {})))" using degs by simp
  have iff0: "\<forall>n \<in> ?K. n \<in> {} \<union> set (zero_in_degree deg) \<longleftrightarrow> ?P n \<subseteq> {}" using sq' by auto
  have cyc0: "({} \<union> set (zero_in_degree deg)) \<inter> on_cycle ?nodes = {}"
    using sq' on_cycle_parent by fastforce
  from kahn_loop_spec [OF ch keys dq qk _ _ degs0 iff0 cyc0]
  obtain D where k: "kahn_loop ch deg (zero_in_degree deg) 0 = Inr (card D)" and DK: "D \<subseteq> ?K"
    and fp: "\<forall>n \<in> ?K. n \<in> D \<longleftrightarrow> ?P n \<subseteq> D" and nc: "D \<inter> on_cycle ?nodes = {}"
    by auto
  have len: "length ?nodes = card ?K"
    using wk distinct_card [of "map fst ?nodes"] by (simp add: well_keyed_def)
  have "card D \<noteq> card ?K \<longleftrightarrow> D \<noteq> ?K"
    using DK by (metis List.finite_set card_subset_eq finite_imageI)
  moreover have "D \<noteq> ?K \<longleftrightarrow> \<not> acyclic (edges_of ?nodes)"
  proof
    assume ne: "D \<noteq> ?K"
    show "\<not> acyclic (edges_of ?nodes)"
    proof
      assume "acyclic (edges_of ?nodes)"
      with edges_of_finite have wf: "wf (edges_of ?nodes)" by (rule finite_acyclic_wf)
      from ne DK obtain x where "x \<in> ?K - D" by auto
      from wfE_min [OF wf this] obtain z where z: "z \<in> ?K - D"
        and min: "\<And>y. (y, z) \<in> edges_of ?nodes \<Longrightarrow> y \<notin> ?K - D" by blast
      from z fp have "\<not> ?P z \<subseteq> D" by blast
      then obtain y where y: "y \<in> ?P z" "y \<notin> D" by auto
      then have "y \<in> ?K" using parents_subset by blast
      with y min [of y] show False by (auto simp: edges_of_def)
    qed
  next
    assume "\<not> acyclic (edges_of ?nodes)"
    then obtain n where n: "n \<in> on_cycle ?nodes" by (auto simp: acyclic_iff_on_cycle)
    from on_cycle_parent [OF n] have "n \<in> ?K" using parents_child_known by blast
    with n nc show "D \<noteq> ?K" by auto
  qed
  ultimately show ?thesis
    using bg k len by (simp add: GroupFilter_is_cyclic_def)
qed

section \<open>A cyclic graph is reported\<close>

text \<open>
  Claim C4. When the \<open>depend_on\<close> edges between known names contain a cycle,
  \<open>is_cyclic\<close> returns true, \<open>match\<close> returns \<open>None\<close> and \<open>group_filter_pipeline\<close>
  raises the \<open>ValueError\<close>. The context that comes back is the one that went in: no
  pipeline of a group or of a filter was called, so the outcome does not depend on what
  any of them would yield.
\<close>

theorem cyclic_graph_is_reported:
  assumes "\<not> acyclic (edges node_map)"
  shows "GroupFilter_is_cyclic node_map = Inr True
       \<and> GroupFilter_match node_map c = Some (Inr None, c)
       \<and> group_filter_pipeline node_map c =
           Some (Inl (ValueError ''Cyclic dependency detected in filters.''), c)"
  using assms
  by (simp add: is_cyclic_spec edges_def GroupFilter_match_def group_filter_pipeline_def)

theorem cyclic_graph_is_reported_witness:
  "\<not> acyclic (edges [sample_group_filter ''A'' True [''B''] Mode_and {},
                      sample_group_filter ''B'' True [''A''] Mode_and {}])
   \<and> GroupFilter_match [sample_group_filter ''A'' True [''B''] Mode_and {},
                         sample_group_filter ''B'' True [''A''] Mode_and {}]
        (some_resource ''p'', empty_state) = Some (Inr None, (some_resource ''p'', empty_state))"
proof -
  let ?gs = "[sample_group_filter ''A'' True [''B''] Mode_and {},
              sample_group_filter ''B'' True [''A''] Mode_and {}]"
  have ab: "(''A'', ''B'') \<in> edges ?gs"
    by (simp add: edges_def edges_of_def parents_def nodes_of_def sample_group_filter_def)
  have ba: "(''B'', ''A'') \<in> edges ?gs"
    by (simp add: edges_def edges_of_def parents_def nodes_of_def sample_group_filter_def)
  from ab ba have "(''A'', ''A'') \<in> (edges ?gs)\<^sup>+" by (rule trancl_into_trancl [OF r_into_trancl])
  then have h: "\<not> acyclic (edges ?gs)" by (auto simp: acyclic_def)
  from cyclic_graph_is_reported [OF h, of "(some_resource ''p'', empty_state)"] h
  show ?thesis by blast
qed

section \<open>A cyclic graph in a rule\<close>

lemma GroupFilter_is_cyclic_Nil: "GroupFilter_is_cyclic [] = Inr False"
  by (simp add: GroupFilter_is_cyclic_def nodes_of_def build_graph_def zero_in_degree_def kahn_loop.simps)

text \<open>
  Claim C5 as stated fails. The cycle check is made inside the loop, for a resource:
  when the walk yields nothing, \<open>execute\<close> of a rule with a cyclic graph returns the
  empty summary and raises nothing.
\<close>

theorem cyclic_rule_without_resources_returns:
  "\<not> acyclic (edges (group_filters cyclic_rule))
   \<and> enabled cyclic_rule \<and> locations cyclic_rule \<noteq> []
   \<and> execute cyclic_rule False 0 [] empty_state = Some (Inr \<lparr>success = 0, errors = 0\<rparr>, empty_state)"
proof -
  have "GroupFilter_is_cyclic (group_filters cyclic_rule) = Inr True" by code_simp
  then have "\<not> acyclic (edges (group_filters cyclic_rule))" by (simp add: is_cyclic_spec edges_def)
  moreover have "enabled cyclic_rule \<and> locations cyclic_rule \<noteq> []
      \<and> execute cyclic_rule False 0 [] empty_state = Some (Inr \<lparr>success = 0, errors = 0\<rparr>, empty_state)"
    by code_simp
  ultimately show ?thesis by simp
qed

text \<open>
  Claim C5, amended. For an enabled rule with locations whose group filters form a
  graph with a cycle, \<open>execute\<close> raises the \<open>ValueError\<close> at the first resource the
  walk yields, whatever follows it; the state is the initial one, so no filter and no
  action was called and nothing was reported, and there is no summary. With no
  resource it returns the empty summary.
\<close>

theorem cyclic_graph_raises_at_first_resource:
  assumes "enabled rule" and "locations rule \<noteq> []"
    and "\<not> acyclic (edges (group_filters rule))"
  shows "execute rule simulate n (res # rest) s =
           Some (Inl (ValueError ''Cyclic dependency detected in filters.''), s)
       \<and> execute rule simulate n [] s = Some (Inr ReportSummary, s)"
proof -
  from assms(3) have cyc: "GroupFilter_is_cyclic (group_filters rule) = Inr True"
    by (simp add: is_cyclic_spec edges_def)
  then have ne: "group_filters rule \<noteq> []"
    by (auto simp: GroupFilter_is_cyclic_Nil)
  have "group_filter_pipeline (group_filters rule) (res, s) =
      Some (Inl (ValueError ''Cyclic dependency detected in filters.''), (res, s))"
    using cyc by (simp add: group_filter_pipeline_def)
  then have "process_resource rule simulate res (ReportSummary, {}) s =
      Some (Inl (ValueError ''Cyclic dependency detected in filters.''), s)"
    using ne by (simp add: process_resource_def group_branch_def)
  then show ?thesis
    using assms(1,2) by (simp add: execute_def in_skip_pathes_def split: option.splits)
qed

theorem cyclic_graph_raises_at_first_resource_witness:
  "enabled cyclic_rule \<and> locations cyclic_rule \<noteq> []
   \<and> \<not> acyclic (edges (group_filters cyclic_rule))
   \<and> execute cyclic_rule False 0 [some_resource ''p'', some_resource ''q''] empty_state =
       Some (Inl (ValueError ''Cyclic dependency detected in filters.''), empty_state)"
proof -
  have "GroupFilter_is_cyclic (group_filters cyclic_rule) = Inr True" by code_simp
  then have c: "\<not> acyclic (edges (group_filters cyclic_rule))" by (simp add: is_cyclic_spec edges_def)
  have h: "enabled cyclic_rule" "locations cyclic_rule \<noteq> []" by code_simp+
  from cyclic_graph_raises_at_first_resource [OF h c] h c show ?thesis by blast
qed

section \<open>The matcher on the worked example\<close>

lemma remdups_singleton: "set xs = {a} \<Longrightarrow> remdups xs = [a]"
proof (induction xs)
  case Nil
  then show ?case by simp
next
  case (Cons x xs)
  then have x: "x = a" by auto
  show ?case
  proof (cases "xs = []")
    case True
    with x show ?thesis by simp
  next
    case False
    then obtain y where "y \<in> set xs" by (cases xs) auto
    with Cons.prems have "set xs = {a}" by auto
    with Cons.IH x show ?thesis by simp
  qed
qed

lemma remdups_pair:
  assumes "set xs = {a, b}" and "a \<noteq> b"
  shows "remdups xs = [a, b] \<or> remdups xs = [b, a]"
proof -
  have d: "distinct (remdups xs)" and s: "set (remdups xs) = {a, b}" using assms by simp_all
  then have "length (remdups xs) = 2"
    using assms(2) distinct_card [OF d] by simp
  then obtain x y where xy: "remdups xs = [x, y]"
    by (cases "remdups xs"; cases "tl (remdups xs)"; cases "tl (tl (remdups xs))") auto
  with s d show ?thesis by (auto simp: doubleton_eq_iff)
qed

lemma group_filter_calls_append [simp]:
  "group_filter_calls (xs @ ys) = group_filter_calls xs @ group_filter_calls ys"
  by (induction xs rule: group_filter_calls.induct) simp_all

lemma call_filter_extends:
  "\<exists>ext. trace (snd (snd (call_filter f c))) = trace (snd c) @ ext \<and> group_filter_calls ext = []"
  by (cases c) (auto simp: call_filter_def log_call_def split: prod.splits)

lemma report_filter_error_trace [simp]:
  "trace (snd (report_filter_error e f c)) = trace (snd c)"
  by (cases c) (simp add: report_filter_error_def output_msg_def)

lemma All_pipeline_extends:
  "\<exists>ext. trace (snd (snd (All_pipeline fs c))) = trace (snd c) @ ext \<and> group_filter_calls ext = []"
proof (induction fs arbitrary: c)
  case Nil
  then show ?case by simp
next
  case (Cons f fs)
  obtain out c1 where cf: "call_filter f c = (out, c1)" by (cases "call_filter f c")
  from call_filter_extends [of f c] cf obtain e1 where
    e1: "trace (snd c1) = trace (snd c) @ e1" "group_filter_calls e1 = []" by auto
  from Cons.IH [of c1] obtain e2 where
    e2: "trace (snd (snd (All_pipeline fs c1))) = trace (snd c1) @ e2" "group_filter_calls e2 = []" by auto
  show ?case
  proof (cases out)
    case (Inl e)
    with cf e1 show ?thesis by simp
  next
    case (Inr b)
    with cf e1 e2 show ?thesis by (cases b) auto
  qed
qed

lemma Any_loop_extends:
  "\<exists>ext. trace (snd (snd (Any_loop result fs c))) = trace (snd c) @ ext \<and> group_filter_calls ext = []"
proof (induction fs arbitrary: c result)
  case Nil
  then show ?case by simp
next
  case (Cons f fs)
  obtain out c1 where cf: "call_filter f c = (out, c1)" by (cases "call_filter f c")
  from call_filter_extends [of f c] cf obtain e1 where
    e1: "trace (snd c1) = trace (snd c) @ e1" "group_filter_calls e1 = []" by auto
  show ?case
  proof (cases out)
    case (Inl e)
    from Cons.IH [of result "report_filter_error e f c1"] obtain e2 where
      "trace (snd (snd (Any_loop result fs (report_filter_error e f c1)))) = trace (snd c1) @ e2"
      "group_filter_calls e2 = []" by auto
    with Inl cf e1 show ?thesis by auto
  next
    case (Inr b)
    from Cons.IH [of "if b then True else result" c1] obtain e2 where
      "trace (snd (snd (Any_loop (if b then True else result) fs c1))) = trace (snd c1) @ e2"
      "group_filter_calls e2 = []" by auto
    with Inr cf e1 show ?thesis by auto
  qed
qed

lemma filter_pipeline_extends:
  "\<exists>ext. trace (snd (snd (filter_pipeline fs m c))) = trace (snd c) @ ext \<and> group_filter_calls ext = []"
  by (cases m) (simp_all add: All_pipeline_extends Any_loop_extends Any_pipeline_def)

lemma call_group_filter_extends:
  "\<exists>ext. trace (snd (snd (call_group_filter g c))) = trace (snd c) @ GroupFilterCall (name g) # ext
     \<and> group_filter_calls ext = []"
proof -
  obtain r s where c: "c = (r, s)" by (cases c)
  from filter_pipeline_extends [of "filters g" "filter_mode g" "(r, log_call (GroupFilterCall (name g)) s)"]
  show ?thesis
    by (auto simp: c call_group_filter_def GroupFilter_pipeline_def log_call_def)
qed

lemma call_group_filter_calls:
  "group_filter_calls (trace (snd (snd (call_group_filter g c)))) =
     group_filter_calls (trace (snd c)) @ [name g]"
  using call_group_filter_extends [of g c] by auto

text \<open>
  Claim C2. The groups are given in the order A, B, C, D, E, with the dependencies of
  the example (each \<open>depend_on\<close> in any iteration order), D in mode \<open>and\<close> and no
  inverted edge. The pipeline of A yields true in the initial context, that of B yields
  true in the context A leaves, that of C yields false in the context B leaves, and
  that of E yields true in the context C leaves; nothing is assumed of D's pipeline.
  Then the matcher returns exactly A, B, E, with the context E leaves, and the group
  calls logged are those of A, B, C and E in this order: D's pipeline is never called.
\<close>

theorem worked_example:
  fixes gA gB gC gD gE :: "('v, 'w) group_filter"
  assumes names: "name gA = ''A''" "name gB = ''B''" "name gC = ''C''" "name gD = ''D''" "name gE = ''E''"
    and deps: "set (depend_on gA) = {}" "set (depend_on gB) = {''A''}" "set (depend_on gC) = {''A''}"
      "set (depend_on gD) = {''B'', ''C''}" "set (depend_on gE) = {''B''}"
    and mode: "depend_on_mode gD = Mode_and"
    and inverted: "depend_on_inverted gB = {}" "depend_on_inverted gC = {}"
      "depend_on_inverted gD = {}" "depend_on_inverted gE = {}"
    and A: "call_group_filter gA c = (True, cA)"
    and B: "call_group_filter gB cA = (True, cB)"
    and C: "call_group_filter gC cB = (False, cC)"
    and E: "call_group_filter gE cC = (True, cE)"
  shows "GroupFilter_match [gA, gB, gC, gD, gE] c = Some (Inr (Some [''A'', ''B'', ''E'']), cE) \<and>
     group_filter_calls (trace (snd cE)) = group_filter_calls (trace (snd c)) @ [''A'', ''B'', ''C'', ''E'']"
proof -
  have calls: "group_filter_calls (trace (snd cE))
       = group_filter_calls (trace (snd c)) @ [''A'', ''B'', ''C'', ''E'']"
    using call_group_filter_calls [of gA c] call_group_filter_calls [of gB cA]
      call_group_filter_calls [of gC cB] call_group_filter_calls [of gE cC]
    by (simp add: names A B C E)
  have rA: "remdups (depend_on gA) = []" using deps(1) by simp
  have rB: "remdups (depend_on gB) = [''A'']" using deps(2) by (rule remdups_singleton)
  have rC: "remdups (depend_on gC) = [''A'']" using deps(3) by (rule remdups_singleton)
  have rE: "remdups (depend_on gE) = [''B'']" using deps(5) by (rule remdups_singleton)
  have rD: "remdups (depend_on gD) = [''B'', ''C''] \<or> remdups (depend_on gD) = [''C'', ''B'']"
    using deps(4) by (rule remdups_pair) simp
  have "GroupFilter_match [gA, gB, gC, gD, gE] c = Some (Inr (Some [''A'', ''B'', ''E'']), cE)"
    using rD
  proof
    assume rD: "remdups (depend_on gD) = [''B'', ''C'']"
    show ?thesis
      by (simp add: GroupFilter_match_def GroupFilter_is_cyclic_def nodes_of_def build_graph_def
          zero_in_degree_def dict_get_def kahn_loop.simps match_loop.simps names rA rB rC rD rE
          mode inverted A B C E)
  next
    assume rD: "remdups (depend_on gD) = [''C'', ''B'']"
    show ?thesis
      by (simp add: GroupFilter_match_def GroupFilter_is_cyclic_def nodes_of_def build_graph_def
          zero_in_degree_def dict_get_def kahn_loop.simps match_loop.simps names rA rB rC rD rE
          mode inverted A B C E)
  qed
  with calls show ?thesis by simp
qed

theorem worked_example_witness:
  "GroupFilter_match
     [sample_group_filter ''A'' True [] Mode_and {}, sample_group_filter ''B'' True [''A''] Mode_and {},
      sample_group_filter ''C'' False [''A''] Mode_and {},
      sample_group_filter ''D'' True [''B'', ''C''] Mode_and {},
      sample_group_filter ''E'' True [''B''] Mode_and {}] (some_resource ''p'', empty_state) =
   Some (Inr (Some [''A'', ''B'', ''E'']),
     (some_resource ''p'', \<lparr>world = (), sink = [],
        trace = [GroupFilterCall ''A'', FilterCall ''A'', GroupFilterCall ''B'', FilterCall ''B'',
                 GroupFilterCall ''C'', FilterCall ''C'', GroupFilterCall ''E'', FilterCall ''E'']\<rparr>))"
proof -
  have p: "call_group_filter (sample_group_filter nm b deps m iv) (r, s) =
      (b, (r, s\<lparr>trace := trace s @ [GroupFilterCall nm, FilterCall nm]\<rparr>))" for nm b deps m iv r s
    by (simp add: call_group_filter_def GroupFilter_pipeline_def sample_group_filter_def const_filter_def
        call_filter_def log_call_def)
  note th = worked_example [where gA = "sample_group_filter ''A'' True [] Mode_and {}"
        and gB = "sample_group_filter ''B'' True [''A''] Mode_and {}"
        and gC = "sample_group_filter ''C'' False [''A''] Mode_and {}"
        and gD = "sample_group_filter ''D'' True [''B'', ''C''] Mode_and {}"
        and gE = "sample_group_filter ''E'' True [''B''] Mode_and {}"
        and c = "(some_resource ''p'', empty_state)"
        and cA = "(some_resource ''p'', \<lparr>world = (), sink = [],
             trace = [GroupFilterCall ''A'', FilterCall ''A'']\<rparr>)"
        and cB = "(some_resource ''p'', \<lparr>world = (), sink = [],
             trace = [GroupFilterCall ''A'', FilterCall ''A'', GroupFilterCall ''B'', FilterCall ''B'']\<rparr>)"
        and cC = "(some_resource ''p'', \<lparr>world = (), sink = [],
             trace = [GroupFilterCall ''A'', FilterCall ''A'', GroupFilterCall ''B'', FilterCall ''B'',
                 GroupFilterCall ''C'', FilterCall ''C'']\<rparr>)"
        and cE = "(some_resource ''p'', \<lparr>world = (), sink = [],
             trace = [GroupFilterCall ''A'', FilterCall ''A'', GroupFilterCall ''B'', FilterCall ''B'',
                 GroupFilterCall ''C'', FilterCall ''C'', GroupFilterCall ''E'', FilterCall ''E'']\<rparr>)"]
  show ?thesis
    by (rule th [THEN conjunct1]) (simp_all add: p empty_state_def, simp_all add: sample_group_filter_def)
qed

section \<open>One round of the matcher\<close>

lemma match_round_Cons_Inr:
  assumes "match_round nodes children (nm # rest) (deg, nr, rm) c = (Inr out, c')"
  obtains node cs deg1 nr1 where "map_of nodes nm = Some node" and "map_of children nm = Some cs"
    and "propagate nodes nm (fst (call_group_filter node c)) cs (deg, nr) = Inr (deg1, nr1)"
    and "match_round nodes children rest
           (deg1, nr1, if fst (call_group_filter node c) then rm @ [nm] else rm)
           (snd (call_group_filter node c)) = (Inr out, c')"
  using assms by (auto simp: dict_get_def split: option.splits prod.splits sum.splits)

lemma match_round_evaluates:
  assumes "match_round nodes children names (deg, nr, rm) c = (Inr (deg', nr', rm'), c')"
  shows "\<exists>ext. trace (snd c') = trace (snd c) @ ext \<and> set rm \<subseteq> set rm' \<and>
     (\<forall>nm \<in> set names. \<exists>node. map_of nodes nm = Some node \<and> GroupFilterCall (name node) \<in> set ext
        \<and> ((\<forall>x. fst (GroupFilter_pipeline node x)) \<longrightarrow> nm \<in> set rm'))"
  using assms
proof (induction names arbitrary: deg nr rm c)
  case Nil
  then show ?case by simp
next
  case (Cons nm rest)
  from Cons.prems obtain node cs deg1 nr1 where
    node: "map_of nodes nm = Some node" and
    rest: "match_round nodes children rest
           (deg1, nr1, if fst (call_group_filter node c) then rm @ [nm] else rm)
           (snd (call_group_filter node c)) = (Inr (deg', nr', rm'), c')"
    by (rule match_round_Cons_Inr)
  from call_group_filter_extends [of node c] obtain e1 where
    e1: "trace (snd (snd (call_group_filter node c))) = trace (snd c) @ GroupFilterCall (name node) # e1"
    by auto
  from Cons.IH [OF rest] obtain e2 where
    e2: "trace (snd c') = trace (snd (snd (call_group_filter node c))) @ e2"
    and sub: "set (if fst (call_group_filter node c) then rm @ [nm] else rm) \<subseteq> set rm'"
    and all: "\<forall>n \<in> set rest. \<exists>nd. map_of nodes n = Some nd \<and> GroupFilterCall (name nd) \<in> set e2
        \<and> ((\<forall>x. fst (GroupFilter_pipeline nd x)) \<longrightarrow> n \<in> set rm')"
    by auto
  have always: "(\<forall>x. fst (GroupFilter_pipeline node x)) \<Longrightarrow> fst (call_group_filter node c)"
    by (cases c) (simp add: call_group_filter_def)
  have tr: "trace (snd c') = trace (snd c) @ (GroupFilterCall (name node) # e1 @ e2)"
    using e1 e2 by simp
  have s: "set rm \<subseteq> set rm'" using sub by (auto split: if_splits)
  have here: "GroupFilterCall (name node) \<in> set (GroupFilterCall (name node) # e1 @ e2)
        \<and> ((\<forall>x. fst (GroupFilter_pipeline node x)) \<longrightarrow> nm \<in> set rm')"
    using always sub by (auto split: if_splits)
  have later: "\<forall>n \<in> set rest. \<exists>nd. map_of nodes n = Some nd
        \<and> GroupFilterCall (name nd) \<in> set (GroupFilterCall (name node) # e1 @ e2)
        \<and> ((\<forall>x. fst (GroupFilter_pipeline nd x)) \<longrightarrow> n \<in> set rm')"
    using all by auto
  show ?case
    using tr s node here later by (intro exI [of _ "GroupFilterCall (name node) # e1 @ e2"]) auto
qed

lemma match_round_append:
  "match_round nodes children (pre @ rest) v c =
     (case match_round nodes children pre v c of
        (Inl e, c1) \<Rightarrow> (Inl e, c1)
      | (Inr v1, c1) \<Rightarrow> match_round nodes children rest v1 c1)"
proof (induction pre arbitrary: v c)
  case Nil
  then show ?case by simp
next
  case (Cons nm pre)
  obtain deg nr rm where v: "v = (deg, nr, rm)" by (cases v)
  show ?case
    unfolding v using Cons.IH
    by (auto split: sum.splits prod.splits)
qed

lemma match_round_rm_grows:
  assumes "match_round nodes children names (deg, nr, rm) c = (Inr (deg', nr', rm'), c')"
  shows "set rm \<subseteq> set rm' \<and> (\<exists>ext. trace (snd c') = trace (snd c) @ ext)"
  using match_round_evaluates [OF assms] by blast

lemma match_round_turn:
  assumes r: "match_round nodes children (pre @ child # post) v c = (Inr (deg', nr', rm'), c')"
  shows "\<exists>node v1 x ext. map_of nodes child = Some node
      \<and> match_round nodes children pre v c = (Inr v1, x)
      \<and> match_round nodes children (child # post) v1 x = (Inr (deg', nr', rm'), c')
      \<and> trace (snd c') = trace (snd x) @ GroupFilterCall (name node) # ext
      \<and> (fst (call_group_filter node x) \<longrightarrow> child \<in> set rm')"
proof -
  obtain o1 x where p: "match_round nodes children pre v c = (o1, x)"
    by (cases "match_round nodes children pre v c")
  from r p obtain v1 where o1: "o1 = Inr v1"
    by (cases o1) (simp_all add: match_round_append)
  with r p have t: "match_round nodes children (child # post) v1 x = (Inr (deg', nr', rm'), c')"
    by (simp add: match_round_append)
  obtain d1 n1 m1 where v1: "v1 = (d1, n1, m1)" by (cases v1)
  from t [unfolded v1] obtain node cs d2 n2 where
    node: "map_of nodes child = Some node" and
    rest: "match_round nodes children post
           (d2, n2, if fst (call_group_filter node x) then m1 @ [child] else m1)
           (snd (call_group_filter node x)) = (Inr (deg', nr', rm'), c')"
    by (rule match_round_Cons_Inr)
  from match_round_rm_grows [OF rest] obtain e2 where
    sub: "set (if fst (call_group_filter node x) then m1 @ [child] else m1) \<subseteq> set rm'"
    and e2: "trace (snd c') = trace (snd (snd (call_group_filter node x))) @ e2" by blast
  from call_group_filter_extends [of node x] obtain e1 where
    e1: "trace (snd (snd (call_group_filter node x))) = trace (snd x) @ GroupFilterCall (name node) # e1"
    by auto
  have tr: "trace (snd c') = trace (snd x) @ GroupFilterCall (name node) # (e1 @ e2)"
    using e1 e2 by simp
  have m: "fst (call_group_filter node x) \<longrightarrow> child \<in> set rm'"
    using sub by (auto split: if_splits)
  from node p o1 t tr m show ?thesis by blast
qed

section \<open>The rounds of the matcher on the graph it builds\<close>

lemma propagate_spec:
  assumes "map fst deg = ks" and "set cs \<subseteq> set ks" and "distinct cs" and "set cs \<subseteq> fst ` set nodes"
  shows "\<exists>deg'. propagate nodes nm matched cs (deg, nxt) =
        Inr (deg', nxt @ filter (enters nodes deg nm matched) cs)
     \<and> map fst deg' = ks
     \<and> (\<forall>n. map_of deg' n = (if n \<in> set cs \<and> fires nodes nm matched n
                               then map_option (\<lambda>d. d - 1) (map_of deg n) else map_of deg n))"
  using assms
proof (induction cs arbitrary: deg nxt)
  case Nil
  then show ?case by simp
next
  case (Cons child cs)
  from Cons.prems have ck: "child \<in> set ks" and sub: "set cs \<subseteq> set ks"
    and dc: "distinct cs" and notin: "child \<notin> set cs" and subn: "set cs \<subseteq> fst ` set nodes"
    and cn: "child \<in> fst ` set nodes" by auto
  from cn obtain g where g: "map_of nodes child = Some g"
    by (metis map_of_eq_None_iff not_Some_eq)
  from map_of_keys [OF Cons.prems(1) ck] obtain d where d: "map_of deg child = Some d" by blast
  show ?case
  proof (cases "matched \<noteq> (nm \<in> depend_on_inverted g)")
    case False
    from Cons.IH [OF Cons.prems(1) sub dc subn, of nxt] obtain deg' where
      r: "propagate nodes nm matched cs (deg, nxt) = Inr (deg', nxt @ filter (enters nodes deg nm matched) cs)"
      and k: "map fst deg' = ks"
      and m: "\<forall>n. map_of deg' n = (if n \<in> set cs \<and> fires nodes nm matched n
                               then map_option (\<lambda>d. d - 1) (map_of deg n) else map_of deg n)"
      by blast
    have nf: "\<not> fires nodes nm matched child" "\<not> enters nodes deg nm matched child"
      using False g by (simp_all add: fires_def enters_def)
    have step: "propagate nodes nm matched (child # cs) (deg, nxt) =
        Inr (deg', nxt @ filter (enters nodes deg nm matched) (child # cs))"
      using False g r nf by (simp add: dict_get_def)
    have vals: "map_of deg' n = (if n \<in> set (child # cs) \<and> fires nodes nm matched n
                               then map_option (\<lambda>d. d - 1) (map_of deg n) else map_of deg n)" for n
      using m nf by auto
    from step k vals show ?thesis by blast
  next
    case True
    let ?deg1 = "dict_set deg child (d - 1)"
    let ?n1 = "if depend_on_mode g = Mode_or \<or> d - 1 = 0 then nxt @ [child] else nxt"
    have k1: "map fst ?deg1 = ks" using keys_dict_set [of child deg "d - 1"] Cons.prems(1) ck by auto
    from Cons.IH [OF k1 sub dc subn, of ?n1] obtain deg' where
      r: "propagate nodes nm matched cs (?deg1, ?n1) =
            Inr (deg', ?n1 @ filter (enters nodes ?deg1 nm matched) cs)"
      and k: "map fst deg' = ks"
      and m: "\<forall>n. map_of deg' n = (if n \<in> set cs \<and> fires nodes nm matched n
                               then map_option (\<lambda>d. d - 1) (map_of ?deg1 n) else map_of ?deg1 n)"
      by blast
    have same: "filter (enters nodes ?deg1 nm matched) cs = filter (enters nodes deg nm matched) cs"
      using notin by (intro filter_cong) (auto simp: enters_def map_of_dict_set split: option.splits)
    have f: "fires nodes nm matched child" using True g by (simp add: fires_def)
    have e: "enters nodes deg nm matched child \<longleftrightarrow> depend_on_mode g = Mode_or \<or> d - 1 = 0"
      using True g d by (auto simp: enters_def)
    have q: "?n1 @ filter (enters nodes deg nm matched) cs
        = nxt @ filter (enters nodes deg nm matched) (child # cs)"
      using e by auto
    have step: "propagate nodes nm matched (child # cs) (deg, nxt) =
        Inr (deg', nxt @ filter (enters nodes deg nm matched) (child # cs))"
      using True g d r same q by (simp add: dict_get_def)
    have vals: "map_of deg' n = (if n \<in> set (child # cs) \<and> fires nodes nm matched n
                               then map_option (\<lambda>d. d - 1) (map_of deg n) else map_of deg n)" for n
      using m notin d f by (auto simp: map_of_dict_set)
    from step k vals show ?thesis by blast
  qed
qed

lemma built_wired: "well_keyed nodes \<Longrightarrow> built nodes deg ch \<Longrightarrow> wired nodes ch"
  by (simp add: built_def wired_def)

lemma match_round_step:
  assumes w: "wired nodes ch" and keys: "map fst deg = map fst nodes" and nm: "nm \<in> fst ` set nodes"
  shows "\<exists>node cs deg1. map_of nodes nm = Some node \<and> name node = nm
     \<and> map_of ch nm = Some cs \<and> distinct cs \<and> set cs = {n. nm \<in> parents nodes n}
     \<and> map fst deg1 = map fst nodes
     \<and> (\<forall>n. map_of deg1 n =
           (if nm \<in> parents nodes n \<and> fires nodes nm (fst (call_group_filter node c)) n
            then map_option (\<lambda>d. d - 1) (map_of deg n) else map_of deg n))
     \<and> match_round nodes ch (nm # rest) (deg, nxt, rm) c =
         match_round nodes ch rest
           (deg1, nxt @ filter (enters nodes deg nm (fst (call_group_filter node c))) cs,
            if fst (call_group_filter node c) then rm @ [nm] else rm)
           (snd (call_group_filter node c))"
proof -
  from nm obtain node where node: "map_of nodes nm = Some node"
    by (metis map_of_eq_None_iff not_Some_eq)
  then have "(nm, node) \<in> set nodes" by (rule map_of_SomeD)
  with w have nn: "name node = nm" by (auto simp: wired_def well_keyed_def)
  from w nm obtain cs where cs: "map_of ch nm = Some cs" "distinct cs"
    "set cs = {n. nm \<in> parents nodes n}" by (auto simp: wired_def)
  have csk: "set cs \<subseteq> fst ` set nodes" using cs(3) parents_child_known by blast
  then have csk': "set cs \<subseteq> set (map fst nodes)" by simp
  obtain matched c1 where cg: "call_group_filter node c = (matched, c1)"
    by (cases "call_group_filter node c")
  from propagate_spec [OF keys csk' cs(2) csk, of nm matched nxt] obtain deg1 where
    p: "propagate nodes nm matched cs (deg, nxt) = Inr (deg1, nxt @ filter (enters nodes deg nm matched) cs)"
    and k1: "map fst deg1 = map fst nodes"
    and v: "\<forall>n. map_of deg1 n = (if n \<in> set cs \<and> fires nodes nm matched n
                               then map_option (\<lambda>d. d - 1) (map_of deg n) else map_of deg n)"
    by blast
  have step: "match_round nodes ch (nm # rest) (deg, nxt, rm) c =
         match_round nodes ch rest
           (deg1, nxt @ filter (enters nodes deg nm matched) cs, if matched then rm @ [nm] else rm) c1"
    using node cs(1) cg p by (simp add: dict_get_def)
  from node nn cs k1 v step cg show ?thesis by auto
qed

lemma enters_parent:
  "x \<in> set (filter (enters nodes deg nm matched) cs) \<Longrightarrow> x \<in> set cs"
  by simp

text \<open>
  A round over a frontier of known names raises nothing; the next frontier holds
  children of the frontier, and the round's matches are a subsequence of it.
\<close>

lemma match_round_ok:
  assumes w: "wired nodes ch" and keys: "map fst deg = map fst nodes"
    and cur: "set cur \<subseteq> fst ` set nodes"
  shows "\<exists>deg' add m c'. match_round nodes ch cur (deg, nxt, rm) c = (Inr (deg', nxt @ add, rm @ m), c')
     \<and> map fst deg' = map fst nodes
     \<and> (\<forall>x \<in> set add. \<exists>p \<in> set cur. p \<in> parents nodes x)
     \<and> subseq m cur"
  using keys cur
proof (induction cur arbitrary: deg nxt rm c)
  case Nil
  then show ?case by simp
next
  case (Cons nm rest)
  from Cons.prems have nm: "nm \<in> fst ` set nodes" and rk: "set rest \<subseteq> fst ` set nodes" by auto
  from match_round_step [OF w Cons.prems(1) nm, of c rest nxt rm] obtain node cs deg1 where
    cs: "set cs = {n. nm \<in> parents nodes n}" and k1: "map fst deg1 = map fst nodes"
    and step: "match_round nodes ch (nm # rest) (deg, nxt, rm) c =
         match_round nodes ch rest
           (deg1, nxt @ filter (enters nodes deg nm (fst (call_group_filter node c))) cs,
            if fst (call_group_filter node c) then rm @ [nm] else rm)
           (snd (call_group_filter node c))"
    by blast
  let ?a1 = "filter (enters nodes deg nm (fst (call_group_filter node c))) cs"
  let ?m1 = "if fst (call_group_filter node c) then [nm] else []"
  have rm1: "(if fst (call_group_filter node c) then rm @ [nm] else rm) = rm @ ?m1" by simp
  from Cons.IH [OF k1 rk, of "nxt @ ?a1" "rm @ ?m1" "snd (call_group_filter node c)"]
  obtain deg' add m c' where
    r: "match_round nodes ch rest (deg1, nxt @ ?a1, rm @ ?m1) (snd (call_group_filter node c))
          = (Inr (deg', (nxt @ ?a1) @ add, (rm @ ?m1) @ m), c')"
    and k: "map fst deg' = map fst nodes"
    and ch: "\<forall>x \<in> set add. \<exists>p \<in> set rest. p \<in> parents nodes x"
    and ss: "subseq m rest"
    by blast
  have res: "match_round nodes ch (nm # rest) (deg, nxt, rm) c
      = (Inr (deg', nxt @ (?a1 @ add), rm @ (?m1 @ m)), c')"
    using step r rm1 by simp
  have par: "\<forall>x \<in> set (?a1 @ add). \<exists>p \<in> set (nm # rest). p \<in> parents nodes x"
    using ch cs by auto
  have sub: "subseq (?m1 @ m) (nm # rest)" using ss by auto
  from res k par sub show ?case by blast
qed

lemma match_loop_total:
  fixes nodes :: "(string, ('v, 'w) group_filter) dict"
  assumes w: "wired nodes ch" and ac: "acyclic (edges_of nodes)"
    and keys: "map fst deg = map fst nodes" and cur: "set cur \<subseteq> fst ` set nodes"
  shows "\<exists>rs c'. match_loop nodes ch deg result cur c = Some (Inr (result @ concat (map snd rs)), c')
     \<and> loop_rounds nodes ch deg cur c rs c'
     \<and> (\<forall>fm \<in> set rs. subseq (snd fm) (fst fm) \<and> set (fst fm) \<subseteq> fst ` set nodes)"
proof -
  have wf: "wf (mult ((edges_of nodes)\<inverse>))"
    using finite_acyclic_wf_converse [OF edges_of_finite ac] by (rule wf_mult)
  show ?thesis
    using wf keys cur
  proof (induction "mset cur" arbitrary: cur deg result c rule: wf_induct_rule)
    case less
    show ?case
    proof (cases "cur = []")
      case True
      have "match_loop nodes ch deg result cur c = Some (Inr (result @ concat (map snd [])), c)"
        using True by (subst match_loop.simps) simp
      moreover have "loop_rounds nodes ch deg cur c [] c" using True by (simp add: loop_rounds.ended)
      ultimately show ?thesis by (intro exI [of _ "[]"] exI [of _ c]) simp
    next
      case False
      from match_round_ok [OF w less.prems(1) less.prems(2), of "[]" "[]" c]
      obtain deg' nxt m c1 where
        r: "match_round nodes ch cur (deg, [], []) c = (Inr (deg', nxt, m), c1)"
        and k: "map fst deg' = map fst nodes"
        and par: "\<forall>x \<in> set nxt. \<exists>p \<in> set cur. p \<in> parents nodes x"
        and ss: "subseq m cur"
        by auto
      have nk: "set nxt \<subseteq> fst ` set nodes" using par parents_child_known by blast
      have "({#} + mset nxt, {#} + mset cur) \<in> mult ((edges_of nodes)\<inverse>)"
      proof (rule one_step_implies_mult)
        show "mset cur \<noteq> {#}" using False by simp
        show "\<forall>k \<in> set_mset (mset nxt). \<exists>j \<in> set_mset (mset cur). (k, j) \<in> (edges_of nodes)\<inverse>"
          using par by (auto simp: edges_of_def)
      qed
      then have smaller: "(mset nxt, mset cur) \<in> mult ((edges_of nodes)\<inverse>)" by simp
      from less.hyps [OF smaller k nk, of "result @ m" c1] obtain rs c' where
        l: "match_loop nodes ch deg' (result @ m) nxt c1
              = Some (Inr ((result @ m) @ concat (map snd rs)), c')"
        and lr: "loop_rounds nodes ch deg' nxt c1 rs c'"
        and al: "\<forall>fm \<in> set rs. subseq (snd fm) (fst fm) \<and> set (fst fm) \<subseteq> fst ` set nodes"
        by blast
      have "(if m \<noteq> [] then result @ m else result) = result @ m" by simp
      then have unfold: "match_loop nodes ch deg result cur c
          = match_loop nodes ch deg' (result @ m) nxt c1"
        using False r by (subst match_loop.simps) simp
      have res: "match_loop nodes ch deg result cur c
          = Some (Inr (result @ concat (map snd ((cur, m) # rs))), c')"
        using unfold l by simp
      have lr': "loop_rounds nodes ch deg cur c ((cur, m) # rs) c'"
        using False r lr by (rule loop_rounds.went_on)
      have al': "\<forall>fm \<in> set ((cur, m) # rs). subseq (snd fm) (fst fm) \<and> set (fst fm) \<subseteq> fst ` set nodes"
        using al ss less.prems(2) by auto
      from res lr' al' show ?thesis by blast
    qed
  qed
qed

section \<open>The loop ends only on an empty frontier\<close>

lemma round_step_inv:
  fixes nodes :: "(string, ('v, 'w) group_filter) dict"
  assumes w: "wired nodes ch"
    and st: "round_step nodes ch (deg, res, cur, c) (deg', res', cur', c')"
    and keys: "map fst deg = map fst nodes" and curK: "set cur \<subseteq> fst ` set nodes"
  shows "map fst deg' = map fst nodes \<and> set cur' \<subseteq> fst ` set nodes
       \<and> match_loop nodes ch deg res cur c = match_loop nodes ch deg' res' cur' c'"
  using st
proof (cases rule: round_step.cases)
  case (pass rm)
  from match_round_ok [OF w keys curK, of "[]" "[]" c] obtain d a m c1 where
    r: "match_round nodes ch cur (deg, [], []) c = (Inr (d, [] @ a, [] @ m), c1)"
    and k: "map fst d = map fst nodes"
    and par: "\<forall>x \<in> set a. \<exists>p \<in> set cur. p \<in> parents nodes x"
    by blast
  from r pass(3) have eq: "d = deg'" "a = cur'" by simp_all
  have nk: "set cur' \<subseteq> fst ` set nodes" using par eq parents_child_known by blast
  have "match_loop nodes ch deg res cur c = match_loop nodes ch deg' res' cur' c'"
    using pass by (subst match_loop.simps) simp
  with k eq nk show ?thesis by simp
qed

lemma round_steps_inv:
  fixes nodes :: "(string, ('v, 'w) group_filter) dict"
  assumes w: "wired nodes ch"
    and reach: "(round_step nodes ch)\<^sup>*\<^sup>* s0 s"
    and keys: "map fst (fst s0) = map fst nodes"
    and curK: "set (fst (snd (snd s0))) \<subseteq> fst ` set nodes"
  shows "map fst (fst s) = map fst nodes \<and> set (fst (snd (snd s))) \<subseteq> fst ` set nodes
       \<and> match_loop nodes ch (fst s0) (fst (snd s0)) (fst (snd (snd s0))) (snd (snd (snd s0)))
         = match_loop nodes ch (fst s) (fst (snd s)) (fst (snd (snd s))) (snd (snd (snd s)))"
  using reach
proof (induction rule: rtranclp_induct)
  case base
  from keys curK show ?case by simp
next
  case (step y z)
  obtain d r cu cx where y: "y = (d, r, cu, cx)" by (cases y)
  obtain d' r' cu' cx' where z: "z = (d', r', cu', cx')" by (cases z)
  from step.IH y have k: "map fst d = map fst nodes" and ck: "set cu \<subseteq> fst ` set nodes" by simp_all
  from round_step_inv [OF w step.hyps(2) [unfolded y z] k ck] step.IH y z
  show ?case by simp
qed

lemma firing_edge_enters:
  fixes nodes :: "(string, ('v, 'w) group_filter) dict"
  assumes w: "wired nodes ch" and keys: "map fst deg = map fst nodes"
    and curK: "set (before @ nm # after) \<subseteq> fst ` set nodes"
    and upto: "match_round nodes ch before (deg, [], []) c = (Inr (deg1, nxt1, rm1), c1)"
    and node: "map_of nodes nm = Some node"
    and child: "map_of nodes child = Some child_node"
    and edge: "nm \<in> set (depend_on child_node)"
    and fired: "fst (call_group_filter node c1) \<noteq> (nm \<in> depend_on_inverted child_node)"
    and gate: "depend_on_mode child_node = Mode_or \<or> map_of deg1 child = Some 1"
    and round: "match_round nodes ch (before @ nm # after) (deg, [], []) c = (Inr (deg', nxt, rm), c')"
  shows "child \<in> set nxt"
proof -
  from curK have bK: "set before \<subseteq> fst ` set nodes" and nmK: "nm \<in> fst ` set nodes"
    and aK: "set after \<subseteq> fst ` set nodes" by auto
  from match_round_ok [OF w keys bK, of "[]" "[]" c] upto have k1: "map fst deg1 = map fst nodes"
    by auto
  from round upto have r1: "match_round nodes ch (nm # after) (deg1, nxt1, rm1) c1 = (Inr (deg', nxt, rm), c')"
    by (simp add: match_round_append)
  from match_round_step [OF w k1 nmK, of c1 after nxt1 rm1] node obtain cs deg2 where
    cs: "set cs = {n. nm \<in> parents nodes n}" and k2: "map fst deg2 = map fst nodes"
    and step: "match_round nodes ch (nm # after) (deg1, nxt1, rm1) c1 =
         match_round nodes ch after
           (deg2, nxt1 @ filter (enters nodes deg1 nm (fst (call_group_filter node c1))) cs,
            if fst (call_group_filter node c1) then rm1 @ [nm] else rm1)
           (snd (call_group_filter node c1))"
    by auto
  let ?n2 = "nxt1 @ filter (enters nodes deg1 nm (fst (call_group_filter node c1))) cs"
  from match_round_ok [OF w k2 aK, of ?n2 "if fst (call_group_filter node c1) then rm1 @ [nm] else rm1"
      "snd (call_group_filter node c1)"] step r1
  obtain add where nxt: "nxt = ?n2 @ add" by auto
  have "nm \<in> parents nodes child" using child edge nmK by (simp add: parents_def)
  with cs have "child \<in> set cs" by simp
  moreover have "enters nodes deg1 nm (fst (call_group_filter node c1)) child"
    using child fired gate by (simp add: enters_def)
  ultimately show ?thesis using nxt by simp
qed

text \<open>
  Claim C3 as stated fails. The group B is in mode \<open>and\<close> and depends on A and X, the
  edge from A being inverted; A and X have no dependency and do not match. In the first
  round the edge from A fires (B's counter falls from two to one), the edge from X does
  not, and nothing matches: B does not enter the next frontier, which is empty, and the
  loop ends. The pipeline of B, which would yield true, is never called and the result
  is empty.
\<close>

theorem firing_edge_without_frontier_entry:
  "acyclic (edges [sample_group_filter ''A'' False [] Mode_and {},
                   sample_group_filter ''X'' False [] Mode_and {},
                   sample_group_filter ''B'' True [''A'', ''X''] Mode_and {''A''}])
   \<and> build_graph (nodes_of [sample_group_filter ''A'' False [] Mode_and {},
                   sample_group_filter ''X'' False [] Mode_and {},
                   sample_group_filter ''B'' True [''A'', ''X''] Mode_and {''A''}])
       = Inr ([(''A'', 0), (''X'', 0), (''B'', 2)], [(''A'', [''B'']), (''X'', [''B'']), (''B'', [])])
   \<and> fires (nodes_of [sample_group_filter ''A'' False [] Mode_and {},
                   sample_group_filter ''X'' False [] Mode_and {},
                   sample_group_filter ''B'' True [''A'', ''X''] Mode_and {''A''}]) ''A'' False ''B''
   \<and> fst (match_round (nodes_of [sample_group_filter ''A'' False [] Mode_and {},
                   sample_group_filter ''X'' False [] Mode_and {},
                   sample_group_filter ''B'' True [''A'', ''X''] Mode_and {''A''}])
        [(''A'', [''B'']), (''X'', [''B'']), (''B'', [])] [''A'', ''X'']
        ([(''A'', 0), (''X'', 0), (''B'', 2)], [], []) (some_resource ''p'', empty_state))
       = Inr ([(''A'', 0), (''X'', 0), (''B'', 1)], [], [])
   \<and> fst (GroupFilter_pipeline (sample_group_filter ''B'' True [''A'', ''X''] Mode_and {''A''})
        (some_resource ''p'', empty_state))
   \<and> map_option (\<lambda>x. (fst x, trace (snd (snd x))))
        (GroupFilter_match [sample_group_filter ''A'' False [] Mode_and {},
                   sample_group_filter ''X'' False [] Mode_and {},
                   sample_group_filter ''B'' True [''A'', ''X''] Mode_and {''A''}]
           (some_resource ''p'', empty_state))
       = Some (Inr (Some []),
               [GroupFilterCall ''A'', FilterCall ''A'', GroupFilterCall ''X'', FilterCall ''X''])"
proof -
  let ?gs = "[sample_group_filter ''A'' False [] Mode_and {},
              sample_group_filter ''X'' False [] Mode_and {},
              sample_group_filter ''B'' True [''A'', ''X''] Mode_and {''A''}]"
  have "GroupFilter_is_cyclic ?gs = Inr False" by code_simp
  then have a: "acyclic (edges ?gs)" by (simp add: is_cyclic_spec edges_def)
  have b: "build_graph (nodes_of ?gs)
       = Inr ([(''A'', 0), (''X'', 0), (''B'', 2)], [(''A'', [''B'']), (''X'', [''B'']), (''B'', [])])"
    by code_simp
  have f: "fires (nodes_of ?gs) ''A'' False ''B''" by code_simp
  have r: "fst (match_round (nodes_of ?gs)
        [(''A'', [''B'']), (''X'', [''B'']), (''B'', [])] [''A'', ''X'']
        ([(''A'', 0), (''X'', 0), (''B'', 2)], [], []) (some_resource ''p'', empty_state))
       = Inr ([(''A'', 0), (''X'', 0), (''B'', 1)], [], [])"
    by code_simp
  have p: "fst (GroupFilter_pipeline (sample_group_filter ''B'' True [''A'', ''X''] Mode_and {''A''})
        (some_resource ''p'', empty_state))"
    by code_simp
  have m: "map_option (\<lambda>x. (fst x, trace (snd (snd x))))
        (GroupFilter_match ?gs (some_resource ''p'', empty_state))
       = Some (Inr (Some []),
               [GroupFilterCall ''A'', FilterCall ''A'', GroupFilterCall ''X'', FilterCall ''X''])"
    by code_simp
  from a b f r p m show ?thesis by (intro conjI)
qed

text \<open>
  Claim C3, amended. Take a collection without a cycle and any state the loop reaches
  from its initial state. In the round from that state no group matches, but at the
  turn of the group \<open>nm\<close> the edge to \<open>child\<close> fires (the outcome of \<open>nm\<close> differs
  from \<open>nm\<close> being among the child's inverted dependencies) and \<open>child\<close> is in mode
  \<open>or\<close> or its counter is one, so that the edge brings it to zero. Then \<open>child\<close> is in
  the next frontier, and the loop does not end there: the round over that frontier runs
  to its end, the pipeline of \<open>child\<close> is called in it, in the context \<open>x\<close> reached
  after the groups before it in the frontier, and the matcher returns a list. If the
  pipeline yields true at that call, \<open>child\<close> is in the round's matches, which are
  appended to the result, and it is in the list the matcher returns.
\<close>

theorem loop_ends_only_on_empty_frontier:
  fixes node_map :: "('v, 'w) group_filter list"
  assumes ac: "acyclic (edges node_map)"
    and bg: "build_graph (nodes_of node_map) = Inr (deg0, children)"
    and reach: "(round_step (nodes_of node_map) children)\<^sup>*\<^sup>*
                  (deg0, [], zero_in_degree deg0, c0) (in_degree, result, before @ nm # after, c)"
    and upto: "match_round (nodes_of node_map) children before (in_degree, [], []) c =
                 (Inr (deg1, nxt1, rm1), c1)"
    and node: "map_of (nodes_of node_map) nm = Some node"
    and child: "map_of (nodes_of node_map) child = Some child_node"
    and edge: "nm \<in> set (depend_on child_node)"
    and fired: "fst (call_group_filter node c1) \<noteq> (nm \<in> depend_on_inverted child_node)"
    and gate: "depend_on_mode child_node = Mode_or \<or> map_of deg1 child = Some 1"
    and nomatch: "match_round (nodes_of node_map) children (before @ nm # after) (in_degree, [], []) c =
                 (Inr (in_degree', next_round, []), c')"
  shows "child \<in> set next_round
       \<and> (\<exists>in_degree'' next_round' round_matched' c'' pre post vars x ext final cf.
            match_round (nodes_of node_map) children next_round (in_degree', [], []) c' =
              (Inr (in_degree'', next_round', round_matched'), c'')
          \<and> (round_step (nodes_of node_map) children)\<^sup>*\<^sup>* (deg0, [], zero_in_degree deg0, c0)
              (in_degree'', (if round_matched' \<noteq> [] then result @ round_matched' else result),
               next_round', c'')
          \<and> next_round = pre @ child # post
          \<and> match_round (nodes_of node_map) children pre (in_degree', [], []) c' = (Inr vars, x)
          \<and> trace (snd c'') = trace (snd x) @ GroupFilterCall child # ext
          \<and> GroupFilter_match node_map c0 = Some (Inr (Some final), cf)
          \<and> (fst (call_group_filter child_node x) \<longrightarrow>
                child \<in> set round_matched' \<and> child \<in> set final))"
proof -
  let ?nodes = "nodes_of node_map"
  let ?K = "fst ` set ?nodes"
  let ?cur = "before @ nm # after"
  have wk: "well_keyed ?nodes" by (rule nodes_of_well_keyed)
  have ac': "acyclic (edges_of ?nodes)" using ac by (simp add: edges_def)
  then have cyc: "GroupFilter_is_cyclic node_map = Inr False" by (simp add: is_cyclic_spec)
  from build_graph_spec [OF wk] bg have b: "built ?nodes deg0 children" by auto
  have w: "wired ?nodes children" using wk b by (rule built_wired)
  from b have keys0: "map fst deg0 = map fst ?nodes" by (simp add: built_def)
  have dk: "distinct (map fst deg0)" using wk keys0 by (simp add: well_keyed_def)
  from zero_in_degree_spec [OF dk] have sq: "set (zero_in_degree deg0) = {n. map_of deg0 n = Some 0}"
    by simp
  have qk: "set (zero_in_degree deg0) \<subseteq> ?K"
  proof
    fix n assume "n \<in> set (zero_in_degree deg0)"
    with sq have "map_of deg0 n = Some 0" by simp
    then have "n \<in> fst ` set deg0" by (metis domI dom_map_of_conv_image_fst)
    with keys0 show "n \<in> ?K" by (metis list.set_map)
  qed
  from round_steps_inv [OF w reach] keys0 qk
  have keys: "map fst in_degree = map fst ?nodes" and curK: "set ?cur \<subseteq> ?K"
    and run0: "match_loop ?nodes children deg0 [] (zero_in_degree deg0) c0
             = match_loop ?nodes children in_degree result ?cur c"
    by simp_all
  have ne: "?cur \<noteq> []" by simp
  have st1: "round_step ?nodes children (in_degree, result, ?cur, c) (in_degree', result, next_round, c')"
    using round_step.pass [OF ne nomatch, of result] by simp
  from round_step_inv [OF w st1 keys curK]
  have keys': "map fst in_degree' = map fst ?nodes" and nK: "set next_round \<subseteq> ?K"
    and run1: "match_loop ?nodes children in_degree result ?cur c
             = match_loop ?nodes children in_degree' result next_round c'"
    by simp_all
  have inn: "child \<in> set next_round"
    using firing_edge_enters [OF w keys curK upto node child edge fired gate nomatch] .
  then have ne': "next_round \<noteq> []" by auto
  from match_round_ok [OF w keys' nK, of "[]" "[]" c'] obtain d2 n2 m2 c2 where
    r2: "match_round ?nodes children next_round (in_degree', [], []) c' = (Inr (d2, n2, m2), c2)"
    by auto
  let ?res2 = "if m2 \<noteq> [] then result @ m2 else result"
  have st2: "round_step ?nodes children (in_degree', result, next_round, c') (d2, ?res2, n2, c2)"
    using ne' r2 by (rule round_step.pass)
  from round_step_inv [OF w st2 keys' nK]
  have keys2: "map fst d2 = map fst ?nodes" and n2K: "set n2 \<subseteq> ?K"
    and run2: "match_loop ?nodes children in_degree' result next_round c'
             = match_loop ?nodes children d2 ?res2 n2 c2"
    by simp_all
  have reach2: "(round_step ?nodes children)\<^sup>*\<^sup>* (deg0, [], zero_in_degree deg0, c0) (d2, ?res2, n2, c2)"
    using reach st1 st2 by auto
  from inn obtain pre post where sp: "next_round = pre @ child # post" by (auto dest: split_list)
  from match_round_turn [OF r2 [unfolded sp]] child obtain vars x ext where
    turn: "match_round ?nodes children pre (in_degree', [], []) c' = (Inr vars, x)"
    and tr: "trace (snd c2) = trace (snd x) @ GroupFilterCall (name child_node) # ext"
    and m: "fst (call_group_filter child_node x) \<longrightarrow> child \<in> set m2"
    by auto
  from child have "(child, child_node) \<in> set ?nodes" by (rule map_of_SomeD)
  with wk have nn: "name child_node = child" by (auto simp: well_keyed_def)
  from match_loop_total [OF w ac' keys2 n2K, of ?res2 c2]
  obtain rs :: "(string list \<times> string list) list" and cf where
    fin: "match_loop ?nodes children d2 ?res2 n2 c2 = Some (Inr (?res2 @ concat (map snd rs)), cf)"
    by blast
  let ?final = "?res2 @ concat (map snd rs)"
  have gm: "GroupFilter_match node_map c0 = Some (Inr (Some ?final), cf)"
    using cyc bg run0 run1 run2 fin by (simp add: GroupFilter_match_def)
  have infin: "fst (call_group_filter child_node x) \<longrightarrow> child \<in> set m2 \<and> child \<in> set ?final"
    using m by auto
  from r2 reach2 sp turn tr [unfolded nn] gm infin
  have "\<exists>in_degree'' next_round' round_matched' c'' pre post vars x ext final cf.
            match_round (nodes_of node_map) children next_round (in_degree', [], []) c' =
              (Inr (in_degree'', next_round', round_matched'), c'')
          \<and> (round_step (nodes_of node_map) children)\<^sup>*\<^sup>* (deg0, [], zero_in_degree deg0, c0)
              (in_degree'', (if round_matched' \<noteq> [] then result @ round_matched' else result),
               next_round', c'')
          \<and> next_round = pre @ child # post
          \<and> match_round (nodes_of node_map) children pre (in_degree', [], []) c' = (Inr vars, x)
          \<and> trace (snd c'') = trace (snd x) @ GroupFilterCall child # ext
          \<and> GroupFilter_match node_map c0 = Some (Inr (Some final), cf)
          \<and> (fst (call_group_filter child_node x) \<longrightarrow>
                child \<in> set round_matched' \<and> child \<in> set final)"
    by blast
  with inn show ?thesis by simp
qed

theorem loop_ends_only_on_empty_frontier_witness:
  "acyclic (edges [sample_group_filter ''A'' False [] Mode_and {},
                   sample_group_filter ''B'' True [''A''] Mode_and {''A''}])
   \<and> build_graph (nodes_of [sample_group_filter ''A'' False [] Mode_and {},
                             sample_group_filter ''B'' True [''A''] Mode_and {''A''}])
       = Inr ([(''A'', 0), (''B'', 1)], [(''A'', [''B'']), (''B'', [])])
   \<and> match_round (nodes_of [sample_group_filter ''A'' False [] Mode_and {},
                             sample_group_filter ''B'' True [''A''] Mode_and {''A''}])
        [(''A'', [''B'']), (''B'', [])] [''A''] ([(''A'', 0), (''B'', 1)], [], [])
        (some_resource ''p'', empty_state)
       = (Inr ([(''A'', 0), (''B'', 0)], [''B''], []),
          (some_resource ''p'', \<lparr>world = (), sink = [], trace = [GroupFilterCall ''A'', FilterCall ''A'']\<rparr>))
   \<and> ''B'' \<in> set [''B'']
   \<and> (\<exists>final cf. GroupFilter_match [sample_group_filter ''A'' False [] Mode_and {},
                             sample_group_filter ''B'' True [''A''] Mode_and {''A''}]
                      (some_resource ''p'', empty_state) = Some (Inr (Some final), cf))
   \<and> map_option (\<lambda>x. (fst x, trace (snd (snd x))))
        (GroupFilter_match [sample_group_filter ''A'' False [] Mode_and {},
                            sample_group_filter ''B'' True [''A''] Mode_and {''A''}]
           (some_resource ''p'', empty_state))
       = Some (Inr (Some [''B'']),
               [GroupFilterCall ''A'', FilterCall ''A'', GroupFilterCall ''B'', FilterCall ''B''])"
proof -
  let ?gA = "sample_group_filter ''A'' False [] Mode_and {}"
  let ?gB = "sample_group_filter ''B'' True [''A''] Mode_and {''A''}"
  let ?gs = "[?gA, ?gB]"
  let ?deg0 = "[(''A'', 0::int), (''B'', 1)]"
  let ?ch = "[(''A'', [''B'']), (''B'', [])]"
  let ?c0 = "(some_resource ''p'', empty_state)"
  let ?c1 = "(some_resource ''p'', \<lparr>world = (), sink = [], trace = [GroupFilterCall ''A'', FilterCall ''A'']\<rparr>)"
  have "GroupFilter_is_cyclic ?gs = Inr False" by code_simp
  then have ac: "acyclic (edges ?gs)" by (simp add: is_cyclic_spec edges_def)
  have bg: "build_graph (nodes_of ?gs) = Inr (?deg0, ?ch)" by code_simp
  have z: "zero_in_degree ?deg0 = [''A'']" by (simp add: zero_in_degree_def)
  have reach: "(round_step (nodes_of ?gs) ?ch)\<^sup>*\<^sup>* (?deg0, [], zero_in_degree ?deg0, ?c0)
      (?deg0, [], ''A'' # [], ?c0)"
    unfolding z by simp
  have upto: "match_round (nodes_of ?gs) ?ch [] (?deg0, [], []) ?c0 = (Inr (?deg0, [], []), ?c0)"
    by simp
  have node: "map_of (nodes_of ?gs) ''A'' = Some ?gA"
    by (simp add: nodes_of_def sample_group_filter_def)
  have child: "map_of (nodes_of ?gs) ''B'' = Some ?gB"
    by (simp add: nodes_of_def sample_group_filter_def)
  have edge: "''A'' \<in> set (depend_on ?gB)" by (simp add: sample_group_filter_def)
  have fired: "fst (call_group_filter ?gA ?c0) \<noteq> (''A'' \<in> depend_on_inverted ?gB)"
    by (simp add: call_group_filter_def GroupFilter_pipeline_def sample_group_filter_def
        const_filter_def call_filter_def)
  have gate: "depend_on_mode ?gB = Mode_or \<or> map_of ?deg0 ''B'' = Some 1" by simp
  have nomatch: "match_round (nodes_of ?gs) ?ch (''A'' # []) (?deg0, [], []) ?c0
       = (Inr ([(''A'', 0), (''B'', 0)], [''B''], []), ?c1)"
    by (simp add: nodes_of_def dict_get_def call_group_filter_def GroupFilter_pipeline_def
        sample_group_filter_def const_filter_def call_filter_def log_call_def empty_state_def)
  note th = loop_ends_only_on_empty_frontier [where before = "[]" and after = "[]", unfolded append_Nil,
      OF ac bg reach upto node child edge fired gate nomatch]
  from th have inn: "''B'' \<in> set [''B'']" by (rule conjunct1)
  from th have ret: "\<exists>final cf. GroupFilter_match ?gs ?c0 = Some (Inr (Some final), cf)" by blast
  have m: "map_option (\<lambda>x. (fst x, trace (snd (snd x)))) (GroupFilter_match ?gs ?c0)
       = Some (Inr (Some [''B'']),
               [GroupFilterCall ''A'', FilterCall ''A'', GroupFilterCall ''B'', FilterCall ''B''])"
    by code_simp
  from ac bg nomatch inn ret m show ?thesis by (intro conjI)
qed

section \<open>Groups in mode \<open>and\<close> are evaluated once\<close>

lemma inv_and_step:
  fixes nodes :: "(string, ('v, 'w) group_filter) dict"
  assumes am: "\<forall>kv \<in> set nodes. depend_on_mode (snd kv) = Mode_and"
    and inv: "inv_and nodes S deg (nm # rest) nxt"
    and dcs: "distinct cs" and cs: "set cs = {n. nm \<in> parents nodes n}"
    and k1: "map fst deg1 = map fst nodes"
    and v: "\<forall>n. map_of deg1 n =
           (if nm \<in> parents nodes n \<and> fires nodes nm matched n
            then map_option (\<lambda>d. d - 1) (map_of deg n) else map_of deg n)"
  shows "inv_and nodes (insert nm S) deg1 rest (nxt @ filter (enters nodes deg nm matched) cs)"
proof -
  let ?K = "fst ` set nodes" and ?P = "parents nodes"
  let ?new = "filter (enters nodes deg nm matched) cs"
  from inv have SK: "S \<subseteq> ?K" and dist: "distinct ((nm # rest) @ nxt)"
    and sub: "set ((nm # rest) @ nxt) \<subseteq> ?K" and disj: "set ((nm # rest) @ nxt) \<inter> S = {}"
    and low: "\<forall>n \<in> ?K. \<exists>d. map_of deg n = Some d \<and> int (card (?P n - S)) \<le> d"
    and zero: "\<forall>n \<in> S \<union> set ((nm # rest) @ nxt). map_of deg n = Some 0"
    by (simp_all add: inv_and_def)
  have nmS: "nm \<notin> S" and nmK: "nm \<in> ?K" using disj sub by auto
  have csK: "set cs \<subseteq> ?K" using cs parents_child_known by blast
  have positive: "\<exists>d. map_of deg n = Some d \<and> 1 \<le> d" if "nm \<in> ?P n" for n
  proof -
    from that have nK: "n \<in> ?K" by (rule parents_child_known)
    with low obtain d where d: "map_of deg n = Some d" "int (card (?P n - S)) \<le> d" by blast
    have "nm \<in> ?P n - S" using that nmS by simp
    moreover have "finite (?P n - S)" using parents_finite by auto
    ultimately have "0 < card (?P n - S)" by (auto simp: card_gt_0_iff)
    with d show ?thesis by auto
  qed
  have new_one: "map_of deg x = Some 1" "nm \<in> ?P x" "fires nodes nm matched x" if "x \<in> set ?new" for x
  proof -
    from that have e: "enters nodes deg nm matched x" and xc: "x \<in> set cs" by auto
    from xc cs show "nm \<in> ?P x" by auto
    from e obtain g where g: "map_of nodes x = Some g" "matched \<noteq> (nm \<in> depend_on_inverted g)"
      "depend_on_mode g = Mode_or \<or> map_of deg x = Some 1"
      by (auto simp: enters_def split: option.splits)
    from g(1) have "(x, g) \<in> set nodes" by (rule map_of_SomeD)
    with am have "depend_on_mode g = Mode_and" by force
    with g(3) show "map_of deg x = Some 1" by simp
    from g show "fires nodes nm matched x" by (simp add: fires_def)
  qed
  have new_fresh: "x \<notin> S \<union> set ((nm # rest) @ nxt)" if "x \<in> set ?new" for x
  proof
    assume "x \<in> S \<union> set ((nm # rest) @ nxt)"
    with zero have "map_of deg x = Some 0" by blast
    with new_one(1) [OF that] show False by simp
  qed
  have d': "distinct (rest @ nxt @ ?new)"
    using dist dcs new_fresh by auto
  have s': "set (rest @ nxt @ ?new) \<subseteq> ?K" using sub csK by auto
  have j': "set (rest @ nxt @ ?new) \<inter> insert nm S = {}"
    using dist disj new_fresh by auto
  have low': "\<forall>n \<in> ?K. \<exists>d. map_of deg1 n = Some d \<and> int (card (?P n - insert nm S)) \<le> d"
  proof
    fix n assume nK: "n \<in> ?K"
    with low obtain d where d: "map_of deg n = Some d" "int (card (?P n - S)) \<le> d" by blast
    show "\<exists>d. map_of deg1 n = Some d \<and> int (card (?P n - insert nm S)) \<le> d"
    proof (cases "nm \<in> ?P n")
      case True
      then have "nm \<in> ?P n - S" using nmS by simp
      moreover have "finite (?P n - S)" using parents_finite by auto
      ultimately have "card (?P n - S - {nm}) = card (?P n - S) - 1" "0 < card (?P n - S)"
        by (auto simp: card_gt_0_iff)
      moreover have "?P n - insert nm S = ?P n - S - {nm}" by auto
      ultimately have "int (card (?P n - insert nm S)) \<le> d - 1" using d(2) by simp
      with v d(1) True show ?thesis by auto
    next
      case False
      then have "?P n - insert nm S = ?P n - S" by auto
      with v d False show ?thesis by auto
    qed
  qed
  have zero': "\<forall>n \<in> insert nm S \<union> set (rest @ nxt @ ?new). map_of deg1 n = Some 0"
  proof
    fix n assume n: "n \<in> insert nm S \<union> set (rest @ nxt @ ?new)"
    show "map_of deg1 n = Some 0"
    proof (cases "n \<in> set ?new")
      case True
      from new_one [OF True] v show ?thesis by simp
    next
      case False
      with n have old: "n \<in> S \<union> set ((nm # rest) @ nxt)" by auto
      with zero have z: "map_of deg n = Some 0" by blast
      have "nm \<notin> ?P n"
      proof
        assume "nm \<in> ?P n"
        from positive [OF this] z show False by auto
      qed
      with v z show ?thesis by simp
    qed
  qed
  have SK': "insert nm S \<subseteq> ?K" using SK nmK by auto
  from k1 SK' d' s' j' low' zero' show ?thesis
    unfolding inv_and_def by simp
qed

lemma subseq_subset: "subseq xs ys \<Longrightarrow> set xs \<subseteq> set ys"
  by (auto dest: list_emb_set)

lemma subseq_distinct: "subseq xs ys \<Longrightarrow> distinct ys \<Longrightarrow> distinct xs"
proof (induction rule: list_emb.induct)
  case (list_emb_Nil ys)
  then show ?case by simp
next
  case (list_emb_Cons xs ys y)
  then show ?case by simp
next
  case (list_emb_Cons2 x y xs ys)
  then show ?case using subseq_subset [of xs ys] by auto
qed

lemma match_round_and:
  fixes nodes :: "(string, ('v, 'w) group_filter) dict"
  assumes w: "wired nodes ch" and am: "\<forall>kv \<in> set nodes. depend_on_mode (snd kv) = Mode_and"
    and inv: "inv_and nodes S deg cur nxt"
  shows "\<exists>deg' nxt' m c'. match_round nodes ch cur (deg, nxt, rm) c = (Inr (deg', nxt', rm @ m), c')
     \<and> inv_and nodes (S \<union> set cur) deg' [] nxt' \<and> subseq m cur"
  using inv
proof (induction cur arbitrary: S deg nxt rm c)
  case Nil
  then show ?case by simp
next
  case (Cons nm rest)
  from Cons.prems have keys: "map fst deg = map fst nodes" and nm: "nm \<in> fst ` set nodes"
    by (simp_all add: inv_and_def)
  from match_round_step [OF w keys nm, of c rest nxt rm] obtain node cs deg1 where
    dcs: "distinct cs" and cs: "set cs = {n. nm \<in> parents nodes n}"
    and k1: "map fst deg1 = map fst nodes"
    and v: "\<forall>n. map_of deg1 n =
           (if nm \<in> parents nodes n \<and> fires nodes nm (fst (call_group_filter node c)) n
            then map_option (\<lambda>d. d - 1) (map_of deg n) else map_of deg n)"
    and step: "match_round nodes ch (nm # rest) (deg, nxt, rm) c =
         match_round nodes ch rest
           (deg1, nxt @ filter (enters nodes deg nm (fst (call_group_filter node c))) cs,
            if fst (call_group_filter node c) then rm @ [nm] else rm)
           (snd (call_group_filter node c))"
    by blast
  let ?m1 = "if fst (call_group_filter node c) then [nm] else []"
  have rm1: "(if fst (call_group_filter node c) then rm @ [nm] else rm) = rm @ ?m1" by simp
  from inv_and_step [OF am Cons.prems dcs cs k1 v]
  have inv1: "inv_and nodes (insert nm S) deg1 rest
      (nxt @ filter (enters nodes deg nm (fst (call_group_filter node c))) cs)" .
  from Cons.IH [OF inv1, of "rm @ ?m1" "snd (call_group_filter node c)"]
  obtain deg' nxt' m c' where
    r: "match_round nodes ch rest
          (deg1, nxt @ filter (enters nodes deg nm (fst (call_group_filter node c))) cs, rm @ ?m1)
          (snd (call_group_filter node c)) = (Inr (deg', nxt', (rm @ ?m1) @ m), c')"
    and inv': "inv_and nodes (insert nm S \<union> set rest) deg' [] nxt'" and ss: "subseq m rest"
    by blast
  have res: "match_round nodes ch (nm # rest) (deg, nxt, rm) c = (Inr (deg', nxt', rm @ (?m1 @ m)), c')"
    using step r rm1 by simp
  have s: "insert nm S \<union> set rest = S \<union> set (nm # rest)" by auto
  have sub: "subseq (?m1 @ m) (nm # rest)" using ss by auto
  from res inv' s sub show ?case by (metis (no_types, lifting))
qed

lemma loop_rounds_distinct:
  fixes nodes :: "(string, ('v, 'w) group_filter) dict"
  assumes w: "wired nodes ch" and am: "\<forall>kv \<in> set nodes. depend_on_mode (snd kv) = Mode_and"
    and lr: "loop_rounds nodes ch deg cur c rs c'" and inv: "inv_and nodes S deg cur []"
  shows "distinct (concat (map snd rs)) \<and> set (concat (map snd rs)) \<inter> S = {}"
  using lr inv
proof (induction arbitrary: S rule: loop_rounds.induct)
  case (ended in_degree c)
  then show ?case by simp
next
  case (went_on cur deg c deg' nxt rm c' rs c'')
  from match_round_and [OF w am went_on.prems, of "[]" c] went_on.hyps(2)
  have inv': "inv_and nodes (S \<union> set cur) deg' [] nxt" and ss: "subseq rm cur" by auto
  from inv' have "inv_and nodes (S \<union> set cur) deg' nxt []" by (simp add: inv_and_def)
  from went_on.IH [OF this] have d: "distinct (concat (map snd rs))"
    and j: "set (concat (map snd rs)) \<inter> (S \<union> set cur) = {}" by simp_all
  from went_on.prems have dc: "distinct cur" and cj: "set cur \<inter> S = {}" by (simp_all add: inv_and_def)
  from ss dc have drm: "distinct rm" by (rule subseq_distinct)
  from ss have srm: "set rm \<subseteq> set cur" by (rule subseq_subset)
  from d drm j srm cj show ?case by auto
qed

section \<open>The matcher on graphs without a cycle\<close>

text \<open>
  Claim C1 as stated fails. The group C is in mode \<open>or\<close> and depends on A and B, which
  have no dependency and both match: each of the two edges appends C to the next
  frontier, C is evaluated twice in the second round and its name is twice in the
  result.
\<close>

theorem or_mode_group_matched_twice:
  "acyclic (edges [sample_group_filter ''A'' True [] Mode_and {},
                   sample_group_filter ''B'' True [] Mode_and {},
                   sample_group_filter ''C'' True [''A'', ''B''] Mode_or {}])
   \<and> map_option fst (GroupFilter_match
        [sample_group_filter ''A'' True [] Mode_and {},
         sample_group_filter ''B'' True [] Mode_and {},
         sample_group_filter ''C'' True [''A'', ''B''] Mode_or {}] (some_resource ''p'', empty_state))
     = Some (Inr (Some [''A'', ''B'', ''C'', ''C'']))"
proof -
  let ?gs = "[sample_group_filter ''A'' True [] Mode_and {},
              sample_group_filter ''B'' True [] Mode_and {},
              sample_group_filter ''C'' True [''A'', ''B''] Mode_or {}]"
  have "GroupFilter_is_cyclic ?gs = Inr False" by code_simp
  then have a: "acyclic (edges ?gs)" by (simp add: is_cyclic_spec edges_def)
  have "map_option fst (GroupFilter_match ?gs (some_resource ''p'', empty_state))
     = Some (Inr (Some [''A'', ''B'', ''C'', ''C'']))" by code_simp
  with a show ?thesis by simp
qed

text \<open>
  Claim C1, amended. For every collection whose graph has no cycle the matcher
  returns, raising nothing, a list of names of groups of the collection. The list is
  the concatenation, round after round, of the matches of each round, and the matches
  of a round are a subsequence of its frontier. When every group is in mode \<open>and\<close>
  no name occurs twice.
\<close>

theorem acyclic_match_returns_rounds:
  fixes node_map :: "('v, 'w) group_filter list"
  assumes ac: "acyclic (edges node_map)"
  shows "\<exists>result c' in_degree children rs.
      GroupFilter_match node_map c = Some (Inr (Some result), c')
    \<and> set result \<subseteq> name ` set node_map
    \<and> build_graph (nodes_of node_map) = Inr (in_degree, children)
    \<and> loop_rounds (nodes_of node_map) children in_degree (zero_in_degree in_degree) c rs c'
    \<and> result = concat (map snd rs)
    \<and> (\<forall>fm \<in> set rs. subseq (snd fm) (fst fm))
    \<and> ((\<forall>g \<in> set node_map. depend_on_mode g = Mode_and) \<longrightarrow> distinct result)"
proof -
  let ?nodes = "nodes_of node_map"
  let ?K = "fst ` set ?nodes"
  have wk: "well_keyed ?nodes" by (rule nodes_of_well_keyed)
  have ac': "acyclic (edges_of ?nodes)" using ac by (simp add: edges_def)
  then have cyc: "GroupFilter_is_cyclic node_map = Inr False" by (simp add: is_cyclic_spec)
  from build_graph_spec [OF wk] obtain deg ch where
    bg: "build_graph ?nodes = Inr (deg, ch)" and b: "built ?nodes deg ch" by blast
  have w: "wired ?nodes ch" using wk b by (rule built_wired)
  from b have keys: "map fst deg = map fst ?nodes"
    and degs: "\<forall>n \<in> ?K. map_of deg n = Some (int (card (parents ?nodes n)))"
    by (simp_all add: built_def)
  have dk: "distinct (map fst deg)" using wk keys by (simp add: well_keyed_def)
  from zero_in_degree_spec [OF dk] have dq: "distinct (zero_in_degree deg)"
    and sq: "set (zero_in_degree deg) = {n. map_of deg n = Some 0}" by simp_all
  have qk: "set (zero_in_degree deg) \<subseteq> ?K"
  proof
    fix n assume "n \<in> set (zero_in_degree deg)"
    with sq have "map_of deg n = Some 0" by simp
    then have "n \<in> fst ` set deg" by (metis domI dom_map_of_conv_image_fst)
    with keys show "n \<in> ?K" by (metis list.set_map)
  qed
  from match_loop_total [OF w ac' keys qk, of "[]" c] obtain rs c' where
    ml: "match_loop ?nodes ch deg [] (zero_in_degree deg) c = Some (Inr (concat (map snd rs)), c')"
    and lr: "loop_rounds ?nodes ch deg (zero_in_degree deg) c rs c'"
    and al: "\<forall>fm \<in> set rs. subseq (snd fm) (fst fm) \<and> set (fst fm) \<subseteq> ?K"
    by auto
  let ?result = "concat (map snd rs)"
  have m: "GroupFilter_match node_map c = Some (Inr (Some ?result), c')"
    using cyc bg ml by (simp add: GroupFilter_match_def)
  have "set ?result \<subseteq> ?K"
    using al subseq_subset by fastforce
  then have names: "set ?result \<subseteq> name ` set node_map" by (simp add: nodes_of_keys)
  have subs: "\<forall>fm \<in> set rs. subseq (snd fm) (fst fm)" using al by blast
  have dist: "distinct ?result" if all_and: "\<forall>g \<in> set node_map. depend_on_mode g = Mode_and"
  proof -
    have am: "\<forall>kv \<in> set ?nodes. depend_on_mode (snd kv) = Mode_and"
      using all_and nodes_of_values [of node_map] by auto
    have low: "\<forall>n \<in> ?K. \<exists>d. map_of deg n = Some d \<and> int (card (parents ?nodes n - {})) \<le> d"
      using degs by simp
    have zero: "\<forall>n \<in> {} \<union> set (zero_in_degree deg @ []). map_of deg n = Some 0" using sq by simp
    have inv: "inv_and ?nodes {} deg (zero_in_degree deg) []"
      unfolding inv_and_def using keys dq qk low zero by simp
    from loop_rounds_distinct [OF w am lr inv] show ?thesis by simp
  qed
  from m names bg lr subs dist show ?thesis by blast
qed

theorem acyclic_match_returns_rounds_witness:
  "acyclic (edges [sample_group_filter ''A'' True [] Mode_and {},
                   sample_group_filter ''B'' True [''A''] Mode_and {},
                   sample_group_filter ''C'' False [''A''] Mode_and {},
                   sample_group_filter ''D'' True [''B'', ''C''] Mode_and {},
                   sample_group_filter ''E'' True [''B''] Mode_and {}])
   \<and> (\<exists>result c'. GroupFilter_match
          [sample_group_filter ''A'' True [] Mode_and {},
           sample_group_filter ''B'' True [''A''] Mode_and {},
           sample_group_filter ''C'' False [''A''] Mode_and {},
           sample_group_filter ''D'' True [''B'', ''C''] Mode_and {},
           sample_group_filter ''E'' True [''B''] Mode_and {}] (some_resource ''p'', empty_state)
          = Some (Inr (Some result), c')
        \<and> set result \<subseteq> {''A'', ''B'', ''C'', ''D'', ''E''} \<and> distinct result)"
proof -
  let ?gs = "[sample_group_filter ''A'' True [] Mode_and {},
              sample_group_filter ''B'' True [''A''] Mode_and {},
              sample_group_filter ''C'' False [''A''] Mode_and {},
              sample_group_filter ''D'' True [''B'', ''C''] Mode_and {},
              sample_group_filter ''E'' True [''B''] Mode_and {}]"
  have "GroupFilter_is_cyclic ?gs = Inr False" by code_simp
  then have a: "acyclic (edges ?gs)" by (simp add: is_cyclic_spec edges_def)
  have am: "\<forall>g \<in> set ?gs. depend_on_mode g = Mode_and" by (simp add: sample_group_filter_def)
  have nm: "name ` set ?gs = {''A'', ''B'', ''C'', ''D'', ''E''}" by (simp add: sample_group_filter_def)
  from acyclic_match_returns_rounds [OF a, of "(some_resource ''p'', empty_state)"] am nm a
  show ?thesis by (metis (no_types, lifting))
qed

end
